theory Spec2Isabelle
  imports Main
begin

section \<open>JavaScript values\<close>

text \<open>
  The values that flow through \<^verbatim>\<open>PluginSorter.run\<close> and \<^verbatim>\<open>merge\<close>: primitives, arrays and
  plain objects. Numbers are integers here (non-integral numbers are not modelled). A plain
  object is its list of own properties in insertion order. Class instances, functions and
  \<^verbatim>\<open>merge.custom\<close> customizers are not values of this type; the branch of \<^verbatim>\<open>_merge\<close> for
  customizers therefore has no counterpart below. Numbers stand for themselves up to
  \<open>2\<^sup>5\<^sup>3\<close>, the range in which JavaScript numbers are exact integers.
\<close>

datatype jsval =
    JUndefined
  | JNull
  | JBool bool
  | JNum int
  | JStr string
  | JArr "jsval list"
  | JObj "(string \<times> jsval) list"

type_synonym obj = "(string \<times> jsval) list"

text \<open>The result of \<^verbatim>\<open>if (v)\<close>, \<^verbatim>\<open>!v\<close> and \<^verbatim>\<open>v || d\<close>.\<close>

fun truthy :: "jsval \<Rightarrow> bool" where
  "truthy JUndefined = False"
| "truthy JNull = False"
| "truthy (JBool b) = b"
| "truthy (JNum n) = (n \<noteq> 0)"
| "truthy (JStr s) = (s \<noteq> [])"
| "truthy (JArr xs) = True"
| "truthy (JObj kvs) = True"

text \<open>Reading \<^verbatim>\<open>o[k]\<close> on a plain object: a missing property reads as \<^verbatim>\<open>undefined\<close>.\<close>

definition get_prop :: "obj \<Rightarrow> string \<Rightarrow> jsval" where
  "get_prop kvs k = (case map_of kvs k of None \<Rightarrow> JUndefined | Some v \<Rightarrow> v)"

text \<open>
  Writing \<^verbatim>\<open>o[k] = v\<close>: an existing property keeps its place, a new one goes last. This
  is the order in which JavaScript enumerates properties whose names are not array indices;
  names such as \<^verbatim>\<open>"0"\<close> or \<^verbatim>\<open>"12"\<close>, which JavaScript enumerates first and in
  ascending order, are not among the property names of the objects considered here.
\<close>

primrec set_prop :: "string \<Rightarrow> jsval \<Rightarrow> obj \<Rightarrow> obj" where
  "set_prop k v [] = [(k, v)]"
| "set_prop k v (p # ps) = (if fst p = k then (k, v) # ps else p # set_prop k v ps)"

text \<open>Decimal digits of a number, for property keys made from numbers and array indices.\<close>

fun digits :: "nat \<Rightarrow> string" where
  "digits n = (if n < 10 then [char_of (48 + n)] else digits (n div 10) @ [char_of (48 + n mod 10)])"

definition show_int :: "int \<Rightarrow> string" where
  "show_int i = (if i < 0 then CHR ''-'' # digits (nat (- i)) else digits (nat i))"

fun join_comma :: "string list \<Rightarrow> string" where
  "join_comma [] = []"
| "join_comma [s] = s"
| "join_comma (s # t # ss) = s @ '','' @ join_comma (t # ss)"

text \<open>
  JavaScript turns a value used as a property key (\<^verbatim>\<open>virtual[name]\<close>,
  \<^verbatim>\<open>highIndices[target]\<close>) into a string. Inside an array, \<^verbatim>\<open>undefined\<close> and
  \<^verbatim>\<open>null\<close> become the empty string. A number is printed in digits, as JavaScript does
  below \<open>10\<^sup>2\<^sup>1\<close>; the statements below that depend on keys are about names
  and targets that are strings.
\<close>

fun to_key :: "jsval \<Rightarrow> string" where
  "to_key JUndefined = ''undefined''"
| "to_key JNull = ''null''"
| "to_key (JBool b) = (if b then ''true'' else ''false'')"
| "to_key (JNum n) = show_int n"
| "to_key (JStr s) = s"
| "to_key (JArr xs) =
     join_comma (map (\<lambda>x. if x = JUndefined \<or> x = JNull then [] else to_key x) xs)"
| "to_key (JObj kvs) = ''[object Object]''"

text \<open>
  Every object of the program inherits from \<^verbatim>\<open>Object.prototype\<close>, which belongs to the
  language: reading \<^verbatim>\<open>o[k]\<close> finds its members when \<^verbatim>\<open>o\<close> has no own property \<open>k\<close>.
  These are their names; \<^verbatim>\<open>__proto__\<close> is the prototype object itself, the others are
  functions. None of them is enumerable, so \<^verbatim>\<open>Object.keys\<close> does not list them.
\<close>

definition object_prototype_names :: "string list" where
  "object_prototype_names =
     [''constructor'', ''__defineGetter__'', ''__defineSetter__'', ''hasOwnProperty'',
      ''__lookupGetter__'', ''__lookupSetter__'', ''isPrototypeOf'', ''propertyIsEnumerable'',
      ''toString'', ''valueOf'', ''__proto__'', ''toLocaleString'']"

definition inherited :: "string \<Rightarrow> bool" where
  "inherited k \<longleftrightarrow> k \<in> set object_prototype_names"

text \<open>
  \<^verbatim>\<open>Object.keys(src)\<close> paired with \<^verbatim>\<open>src[prop]\<close>: the own enumerable properties of a
  value. An array has its indices, a string its characters, other primitives none.
\<close>

fun entries :: "jsval \<Rightarrow> obj" where
  "entries (JObj kvs) = kvs"
| "entries (JArr xs) = zip (map digits [0..<length xs]) xs"
| "entries (JStr s) = zip (map digits [0..<length s]) (map (\<lambda>c. JStr [c]) s)"
| "entries v = []"

section \<open>merge.js\<close>

datatype jstype = OTHER | OBJECT | ARRAY

text \<open>
  Modelled from the spec: \<^verbatim>\<open>@gourmet/is-plain-object\<close> is not among the sources; the spec
  speaks of a "plain record", which among the values above is exactly \<open>JObj\<close>.
\<close>

fun isPlainObject :: "jsval \<Rightarrow> bool" where
  "isPlainObject (JObj kvs) = True"
| "isPlainObject v = False"

fun isArray :: "jsval \<Rightarrow> bool" where
  "isArray (JArr xs) = True"
| "isArray v = False"

definition getType :: "jsval \<Rightarrow> jstype" where
  "getType v = (if isPlainObject v then OBJECT else if isArray v then ARRAY else OTHER)"

text \<open>\<^verbatim>\<open>xs.concat(v)\<close>: an array argument is spliced in, any other value is appended.\<close>

fun js_concat :: "jsval list \<Rightarrow> jsval \<Rightarrow> jsval list" where
  "js_concat xs (JArr ys) = xs @ ys"
| "js_concat xs v = xs @ [v]"

fun elems :: "jsval \<Rightarrow> jsval list" where
  "elems (JArr xs) = xs"
| "elems v = []"

text \<open>
  \<^verbatim>\<open>_merge(des, src)\<close> walks the properties of \<^verbatim>\<open>src\<close> and updates \<^verbatim>\<open>des\<close> in place; the
  model returns the updated destination. The recursive call on a plain-object property
  updates that nested destination object in place, so the updated object is the value
  found under the property afterwards. It is called \<open>merge_into\<close> here.
  \<open>get_prop des p\<close> reads own properties only: \<open>merge_into\<close> is \<^verbatim>\<open>_merge\<close> on sources
  none of whose properties bears the name of a member of \<^verbatim>\<open>Object.prototype\<close>. For such
  a property \<^verbatim>\<open>des[prop]\<close> would find the inherited member where \<open>get_prop\<close> finds
  nothing, and the values that \<^verbatim>\<open>_merge\<close> then builds (an array around a function,
  a merge into the prototype) are no values of \<open>jsval\<close>.
\<close>

fun merge_into :: "obj \<Rightarrow> obj \<Rightarrow> obj" where
  "merge_into des [] = des"
| "merge_into des ((p, srcVal) # rest) =
     (let desVal = get_prop des p;
          st = getType srcVal;
          dt = getType desVal;
          nv = (if dt = ARRAY \<and> srcVal \<noteq> JUndefined then JArr (js_concat (elems desVal) srcVal)
                else if st = ARRAY \<and> desVal \<noteq> JUndefined then JArr (js_concat [desVal] srcVal)
                else (case srcVal of
                        JObj s \<Rightarrow>
                          (case desVal of
                             JObj d \<Rightarrow> JObj (merge_into d s)
                           | _ \<Rightarrow> JObj (merge_into [] s))
                      | _ \<Rightarrow> srcVal))
      in merge_into (if nv \<noteq> JUndefined then set_prop p nv des else des) rest)"

text \<open>\<^verbatim>\<open>merge(des, ...args)\<close>: every truthy argument is merged in turn.\<close>

fun merge :: "obj \<Rightarrow> jsval list \<Rightarrow> obj" where
  "merge des [] = des"
| "merge des (src # args) = merge (if truthy src then merge_into des (entries src) else des) args"

section \<open>PluginSorter.js\<close>

definition CONSTRAINT_SCALE :: int where
  "CONSTRAINT_SCALE = 1000"

record config =
  normalize :: "jsval \<Rightarrow> jsval"
  finalize :: "jsval \<Rightarrow> jsval"
  schema :: obj
  defaultGroup :: int

text \<open>The constructor's defaults.\<close>

definition default_config :: config where
  "default_config = \<lparr> normalize = (\<lambda>item. item), finalize = (\<lambda>item. item), schema = [],
     defaultGroup = 500 \<rparr>"

text \<open>
  How a call can end without a result. The first three are the errors that
  \<^verbatim>\<open>PluginSorter.js\<close> throws itself; \<open>TypeError\<close> is thrown by the engine.
  \<open>PrototypePolluted\<close> is no exception: it marks the point where the run merges a patch
  into \<^verbatim>\<open>Object.prototype\<close> itself. From there on every property read of the program can
  find the merged fields, and the model follows the run no further.
\<close>

datatype error =
  ItemsMustBeArray | NormalizeShouldReturnObject | NameIsRequired | TypeError | PrototypePolluted

fun normalizeItems :: "(jsval \<Rightarrow> jsval) \<Rightarrow> jsval list \<Rightarrow> error + obj list" where
  "normalizeItems nz [] = Inr []"
| "normalizeItems nz (x # xs) =
     (let item = nz x in
      if truthy item then
        (case item of
           JObj kvs \<Rightarrow>
             (case get_prop kvs ''name'' of
                JStr s \<Rightarrow>
                  (case normalizeItems nz xs of
                     Inl e \<Rightarrow> Inl e
                   | Inr output \<Rightarrow> Inr (kvs # output))
              | _ \<Rightarrow> Inl NameIsRequired)
         | _ \<Rightarrow> Inl NormalizeShouldReturnObject)
      else normalizeItems nz xs)"

definition base_item :: obj where
  "base_item = [(''after'', JArr []), (''before'', JArr [])]"

text \<open>
  \<^verbatim>\<open>_applySchema\<close>. For a name of \<open>object_prototype_names\<close> that the schema does not
  define, \<^verbatim>\<open>schema[name]\<close> is the inherited member; it has no enumerable property, and
  merging it adds nothing, as merging \<^verbatim>\<open>undefined\<close> does.
\<close>

definition applySchema :: "obj \<Rightarrow> obj list \<Rightarrow> obj list" where
  "applySchema sch items =
     (let s = get_prop sch ''*'' in
      map (\<lambda>item.
             let name = get_prop item ''name'' in
             if \<not> truthy (get_prop item ''virtual'')
             then merge base_item [s, get_prop sch (to_key name), JObj item]
             else merge base_item [JObj item]) items)"

text \<open>
  Modelled from the spec: \<^verbatim>\<open>@gourmet/omit\<close> is not among the sources; the spec says the
  virtual marker is stripped before merging, so \<open>omit\<close> is a copy without that property.
\<close>

definition omit :: "obj \<Rightarrow> string \<Rightarrow> obj" where
  "omit item k = filter (\<lambda>p. fst p \<noteq> k) item"

text \<open>
  \<^verbatim>\<open>a === b\<close>. Two arrays or two objects are equal only when they are the same object,
  which their values do not tell; \<open>strict_eq\<close> takes them for different objects. That is
  so for the names compared in \<^verbatim>\<open>_mergeVirtuals\<close> whenever they are strings, and for the
  groups compared in \<^verbatim>\<open>_sortItems\<close> whenever they are numbers or absent.
\<close>

fun strict_eq :: "jsval \<Rightarrow> jsval \<Rightarrow> bool" where
  "strict_eq (JArr xs) b = False"
| "strict_eq (JObj kvs) b = False"
| "strict_eq a b = (a = b)"

text \<open>
  The loop of \<^verbatim>\<open>_mergeVirtuals\<close> keeps two variables, \<^verbatim>\<open>virtual\<close> (a table from names
  to accumulated patches) and \<^verbatim>\<open>output\<close>; \<open>mergeVirtuals_step\<close> is one pass of its body.
  \<^verbatim>\<open>merge(o, item)\<close> updates an emitted item in place, which is a replacement in
  \<^verbatim>\<open>output\<close> here.

  The table is a \<^verbatim>\<open>{}\<close> literal, so \<^verbatim>\<open>virtual[name]\<close> finds the member of
  \<^verbatim>\<open>Object.prototype\<close> when the name is one of \<open>object_prototype_names\<close> and no patch
  is filed under it; no patch ever is, as the cases below show.
  \<^item> For a real item, \<^verbatim>\<open>merge({}, v, item)\<close> then has a \<^verbatim>\<open>v\<close> without enumerable
    properties, and the emitted item is a copy of the item.
  \<^item> For a virtual item, \<^verbatim>\<open>merge(v, item)\<close> assigns the properties of the item to the
    inherited member. When that is a function, the assignment of \<^verbatim>\<open>name\<close>, which every
    item carries, throws a \<open>TypeError\<close> (a function's \<^verbatim>\<open>name\<close> is read-only, and
    \<^verbatim>\<open>merge.js\<close> is in strict mode), and no other property ends the loop otherwise.
    When the name is \<^verbatim>\<open>__proto__\<close>, the patch is merged into \<^verbatim>\<open>Object.prototype\<close>.
\<close>

definition mergeVirtuals_step ::
  "obj \<Rightarrow> (string \<rightharpoonup> obj) \<times> obj list \<Rightarrow> error + (string \<rightharpoonup> obj) \<times> obj list" where
  "mergeVirtuals_step item st =
     (let virtual = fst st;
          output = snd st;
          name = get_prop item ''name'';
          v = virtual (to_key name) in
      if truthy (get_prop item ''virtual'') then
        (let item' = omit item ''virtual'';
             output' = map (\<lambda>e. if strict_eq (get_prop e ''name'') name
                                  then merge e [JObj item'] else e) output in
         case v of
           Some v' \<Rightarrow> Inr (virtual(to_key name \<mapsto> merge v' [JObj item']), output')
         | None \<Rightarrow>
             if to_key name = ''__proto__'' then Inl PrototypePolluted
             else if inherited (to_key name) then Inl TypeError
             else Inr (virtual(to_key name \<mapsto> item'), output'))
      else
        Inr (virtual,
             output @ [case v of
                         Some v' \<Rightarrow> merge [] [JObj v', JObj item]
                       | None \<Rightarrow> if inherited (to_key name) then merge [] [JObj item] else item]))"

fun mergeVirtuals_loop ::
  "obj list \<Rightarrow> (string \<rightharpoonup> obj) \<times> obj list \<Rightarrow> error + (string \<rightharpoonup> obj) \<times> obj list" where
  "mergeVirtuals_loop [] st = Inr st"
| "mergeVirtuals_loop (item # items) st =
     (case mergeVirtuals_step item st of
        Inl e \<Rightarrow> Inl e
      | Inr st' \<Rightarrow> mergeVirtuals_loop items st')"

definition mergeVirtuals :: "obj list \<Rightarrow> error + obj list" where
  "mergeVirtuals items =
     (case mergeVirtuals_loop items (Map.empty, []) of
        Inl e \<Rightarrow> Inl e
      | Inr st \<Rightarrow> Inr (snd st))"

definition excludeDisabled :: "obj list \<Rightarrow> obj list" where
  "excludeDisabled items = filter (\<lambda>item. \<not> truthy (get_prop item ''disable'')) items"

subsection \<open>Constraint orders\<close>

text \<open>
  The first pass of \<^verbatim>\<open>_getConstraintOrders\<close>: the lowest and the highest index of every
  name. \<^verbatim>\<open>lowIndices\<close> and \<^verbatim>\<open>highIndices\<close> are \<^verbatim>\<open>{}\<close> literals too: for a name of
  \<open>object_prototype_names\<close> the test \<^verbatim>\<open>lowIndices[name] === undefined\<close> finds the inherited
  member and fails, and so does \<^verbatim>\<open>idx > highIndices[name]\<close>; such a name is never
  recorded.
\<close>

fun scan_indices ::
  "obj list \<Rightarrow> nat \<Rightarrow> (string \<rightharpoonup> nat) \<Rightarrow> (string \<rightharpoonup> nat) \<Rightarrow> (string \<rightharpoonup> nat) \<times> (string \<rightharpoonup> nat)" where
  "scan_indices [] idx lowIndices highIndices = (lowIndices, highIndices)"
| "scan_indices (item # rest) idx lowIndices highIndices =
     (let name = to_key (get_prop item ''name'');
          lowIndices' = (if lowIndices name = None \<and> \<not> inherited name
                         then lowIndices(name \<mapsto> idx) else lowIndices);
          highIndices' = (case highIndices name of
                            None \<Rightarrow> if inherited name then highIndices else highIndices(name \<mapsto> idx)
                          | Some h \<Rightarrow> if idx > h then highIndices(name \<mapsto> idx) else highIndices)
      in scan_indices rest (Suc idx) lowIndices' highIndices')"

text \<open>
  The \<^verbatim>\<open>after\<close> table holds, per index, the elements of the item's own \<^verbatim>\<open>after\<close> array.
  When \<^verbatim>\<open>_getConstraintOrders\<close> runs, \<^verbatim>\<open>after\<close> and \<^verbatim>\<open>before\<close> of every item are arrays
  (lemmas \<open>applySchema_arrays\<close> and \<open>mergeVirtuals_arrays\<close>), so \<open>elems\<close> loses nothing.
  Converting \<^verbatim>\<open>before\<close> pushes the item's name onto the \<^verbatim>\<open>after\<close> array of the lowest
  occurrence of each target. The indices found in the tables are indices of items
  (lemmas \<open>low_sound\<close> and \<open>high_sound\<close>), so \<open>after ! idx\<close> is always a row of the table.
  For a target of \<open>object_prototype_names\<close>, \<^verbatim>\<open>lowIndices[target]\<close> is the inherited
  member, \<^verbatim>\<open>after[idx]\<close> is \<^verbatim>\<open>undefined\<close> and \<^verbatim>\<open>push\<close> on it throws a \<open>TypeError\<close>.
\<close>

fun push_before ::
  "(string \<rightharpoonup> nat) \<Rightarrow> jsval \<Rightarrow> jsval list \<Rightarrow> jsval list list \<Rightarrow> error + jsval list list" where
  "push_before lowIndices name [] after = Inr after"
| "push_before lowIndices name (target # targets) after =
     (case lowIndices (to_key target) of
        None \<Rightarrow>
          if inherited (to_key target) then Inl TypeError
          else push_before lowIndices name targets after
      | Some idx \<Rightarrow> push_before lowIndices name targets (after[idx := after ! idx @ [name]]))"

fun convert_before ::
  "(string \<rightharpoonup> nat) \<Rightarrow> obj list \<Rightarrow> jsval list list \<Rightarrow> error + jsval list list" where
  "convert_before lowIndices [] after = Inr after"
| "convert_before lowIndices (item # rest) after =
     (case push_before lowIndices (get_prop item ''name'') (elems (get_prop item ''before'')) after of
        Inl e \<Rightarrow> Inl e
      | Inr after' \<Rightarrow> convert_before lowIndices rest after')"

text \<open>
  \<^verbatim>\<open>_init(idx)\<close> is recursive through \<^verbatim>\<open>af.forEach\<close> and nothing in the code bounds its
  depth, so the model carries fuel: the first argument bounds the depth of nested calls
  and \<open>None\<close> means that the bound was reached. A call that yields \<open>None\<close> for every
  amount of fuel never returns (the engine ends it with a stack overflow).
  \<^verbatim>\<open>orders\<close> is the sparse array of the code, a map from indices; \<^verbatim>\<open>max\<close> starts as
  \<^verbatim>\<open>undefined\<close>, here \<open>None\<close>. The tests \<^verbatim>\<open>orders[idx]\<close>, \<^verbatim>\<open>!max\<close> and \<^verbatim>\<open>max ?\<close> are
  truthiness tests, false for \<^verbatim>\<open>undefined\<close> and for \<open>0\<close>.
  For a target of \<open>object_prototype_names\<close> the test \<^verbatim>\<open>highIndices[target] !== undefined\<close>
  holds, \<^verbatim>\<open>_init\<close> is called on the inherited member, finds no row for it and throws a
  \<open>TypeError\<close> at \<^verbatim>\<open>af.length\<close>.
\<close>

definition truthy_num :: "int option \<Rightarrow> bool" where
  "truthy_num v = (case v of None \<Rightarrow> False | Some n \<Rightarrow> n \<noteq> 0)"

definition num_of :: "int option \<Rightarrow> int" where
  "num_of v = (case v of None \<Rightarrow> 0 | Some n \<Rightarrow> n)"

fun init ::
    "nat \<Rightarrow> jsval list list \<Rightarrow> (string \<rightharpoonup> nat) \<Rightarrow> nat \<Rightarrow> (nat \<rightharpoonup> int)
       \<Rightarrow> (error + (nat \<rightharpoonup> int) \<times> int) option"
  and init_each ::
    "nat \<Rightarrow> jsval list list \<Rightarrow> (string \<rightharpoonup> nat) \<Rightarrow> nat \<Rightarrow> jsval list \<Rightarrow> (nat \<rightharpoonup> int) \<Rightarrow> int option
       \<Rightarrow> (error + (nat \<rightharpoonup> int) \<times> int option) option" where
  "init 0 after highIndices idx orders = None"
| "init (Suc fuel) after highIndices idx orders =
     (if truthy_num (orders idx) then Some (Inr (orders, num_of (orders idx)))
      else
        (let af = after ! idx in
         if af \<noteq> [] then
           (case init_each fuel after highIndices idx af
                   (orders(idx \<mapsto> int idx * CONSTRAINT_SCALE)) None of
              None \<Rightarrow> None
            | Some (Inl e) \<Rightarrow> Some (Inl e)
            | Some (Inr (orders', mx)) \<Rightarrow>
                (let r = (if truthy_num mx then num_of mx + 1 else int idx * CONSTRAINT_SCALE)
                 in Some (Inr (orders'(idx \<mapsto> r), r))))
         else Some (Inr (orders(idx \<mapsto> int idx * CONSTRAINT_SCALE), int idx * CONSTRAINT_SCALE))))"
| "init_each fuel after highIndices idx [] orders mx = Some (Inr (orders, mx))"
| "init_each fuel after highIndices idx (target # targets) orders mx =
     (case highIndices (to_key target) of
        None \<Rightarrow>
          if inherited (to_key target) then Some (Inl TypeError)
          else init_each fuel after highIndices idx targets orders mx
      | Some h \<Rightarrow>
          (case init fuel after highIndices h orders of
             None \<Rightarrow> None
           | Some (Inl e) \<Rightarrow> Some (Inl e)
           | Some (Inr (orders', val)) \<Rightarrow>
               if \<not> truthy_num mx \<or> val > num_of mx
               then init_each fuel after highIndices idx targets (orders'(idx \<mapsto> val + 1)) (Some val)
               else init_each fuel after highIndices idx targets orders' mx))"

text \<open>\<^verbatim>\<open>items.forEach((item, idx) => _init(idx))\<close>, over the indices still to visit.\<close>

fun init_all ::
  "nat \<Rightarrow> jsval list list \<Rightarrow> (string \<rightharpoonup> nat) \<Rightarrow> nat list \<Rightarrow> (nat \<rightharpoonup> int)
     \<Rightarrow> (error + (nat \<rightharpoonup> int)) option" where
  "init_all fuel after highIndices [] orders = Some (Inr orders)"
| "init_all fuel after highIndices (idx # rest) orders =
     (case init fuel after highIndices idx orders of
        None \<Rightarrow> None
      | Some (Inl e) \<Rightarrow> Some (Inl e)
      | Some (Inr (orders', val)) \<Rightarrow> init_all fuel after highIndices rest orders')"

text \<open>
  The table after the conversion of \<^verbatim>\<open>before\<close>. Its rows are the items' own \<^verbatim>\<open>after\<close>
  arrays, so the names pushed onto them are seen in the items that \<^verbatim>\<open>run\<close> returns.
\<close>

definition after_table :: "obj list \<Rightarrow> error + jsval list list" where
  "after_table items =
     convert_before (fst (scan_indices items 0 Map.empty Map.empty)) items
       (map (\<lambda>item. elems (get_prop item ''after'')) items)"

definition getConstraintOrders :: "nat \<Rightarrow> obj list \<Rightarrow> (error + (nat \<rightharpoonup> int)) option" where
  "getConstraintOrders fuel items =
     (case after_table items of
        Inl e \<Rightarrow> Some (Inl e)
      | Inr after \<Rightarrow>
          init_all fuel after (snd (scan_indices items 0 Map.empty Map.empty))
            [0..<length items] Map.empty)"

subsection \<open>Sorting\<close>

text \<open>
  \<^verbatim>\<open>a - b\<close> on the group values. Numbers, booleans, \<^verbatim>\<open>null\<close> and \<^verbatim>\<open>undefined\<close> convert as
  in JavaScript (\<open>None\<close> is \<^verbatim>\<open>NaN\<close>); the conversion of strings, arrays and objects to
  numbers is not modelled and reads as \<^verbatim>\<open>NaN\<close>, so the statements about the comparator
  below concern groups that are numbers or absent.
\<close>

fun to_number :: "jsval \<Rightarrow> int option" where
  "to_number (JNum n) = Some n"
| "to_number (JBool b) = Some (if b then 1 else 0)"
| "to_number JNull = Some 0"
| "to_number v = None"

definition js_sub :: "jsval \<Rightarrow> jsval \<Rightarrow> int option" where
  "js_sub a b = (case (to_number a, to_number b) of (Some x, Some y) \<Rightarrow> Some (x - y) | _ \<Rightarrow> None)"

text \<open>
  The comparator of \<^verbatim>\<open>_sortItems\<close> on the triples \<^verbatim>\<open>[item, orders[idx], idx]\<close>;
  \<open>group_or\<close> is \<^verbatim>\<open>item.group || this._defaultGroup\<close>.
\<close>

definition group_or :: "int \<Rightarrow> obj \<Rightarrow> jsval" where
  "group_or dg item = (if truthy (get_prop item ''group'') then get_prop item ''group'' else JNum dg)"

definition compare_items :: "int \<Rightarrow> obj \<times> int \<times> nat \<Rightarrow> obj \<times> int \<times> nat \<Rightarrow> int option" where
  "compare_items dg a b =
     (let ag = group_or dg (fst a);
          bg = group_or dg (fst b)
      in if \<not> strict_eq ag bg then js_sub ag bg
         else if fst (snd a) \<noteq> fst (snd b) then Some (fst (snd a) - fst (snd b))
         else Some (int (snd (snd a)) - int (snd (snd b))))"

text \<open>
  \<^verbatim>\<open>Array.prototype.sort\<close> belongs to the language, not to the repository. It is stable,
  puts \<open>x\<close> after \<open>y\<close> when the comparator is positive on \<open>(x, y)\<close>, and takes \<^verbatim>\<open>NaN\<close>
  for \<open>0\<close>. The insertion sort below is such a sort.
\<close>

fun insort_cmp :: "('a \<Rightarrow> 'a \<Rightarrow> int option) \<Rightarrow> 'a \<Rightarrow> 'a list \<Rightarrow> 'a list" where
  "insort_cmp c x [] = [x]"
| "insort_cmp c x (y # ys) = (if num_of (c x y) \<le> 0 then x # y # ys else y # insort_cmp c x ys)"

definition sort_cmp :: "('a \<Rightarrow> 'a \<Rightarrow> int option) \<Rightarrow> 'a list \<Rightarrow> 'a list" where
  "sort_cmp c xs = foldr (insort_cmp c) xs []"

text \<open>
  \<^verbatim>\<open>_sortItems\<close>. \<open>pushed\<close> gives each item the \<^verbatim>\<open>after\<close> array that the conversion of
  \<^verbatim>\<open>before\<close> left in it; when \<^verbatim>\<open>_getConstraintOrders\<close> has returned, the conversion has
  succeeded. Every index has an entry in \<open>orders\<close> once \<open>init_all\<close> has returned
  (lemma \<open>getConstraintOrders_dom\<close>).
\<close>

definition pushed :: "obj list \<Rightarrow> jsval list list \<Rightarrow> obj list" where
  "pushed items after =
     map (\<lambda>(item, af). if isArray (get_prop item ''after'') then set_prop ''after'' (JArr af) item else item)
       (zip items after)"

definition sortItems :: "int \<Rightarrow> nat \<Rightarrow> obj list \<Rightarrow> (error + obj list) option" where
  "sortItems dg fuel items =
     (case getConstraintOrders fuel items of
        None \<Rightarrow> None
      | Some (Inl e) \<Rightarrow> Some (Inl e)
      | Some (Inr orders) \<Rightarrow>
          (let after = (case after_table items of Inr after \<Rightarrow> after | Inl e \<Rightarrow> []);
               list = map (\<lambda>(item, idx). (item, num_of (orders idx), idx))
                        (zip (pushed items after) [0..<length items])
           in Some (Inr (map fst (sort_cmp (compare_items dg) list)))))"

definition finalizeItems :: "(jsval \<Rightarrow> jsval) \<Rightarrow> obj list \<Rightarrow> jsval list" where
  "finalizeItems fz items = filter (\<lambda>item. item \<noteq> JUndefined) (map (\<lambda>item. fz (JObj item)) items)"

text \<open>
  \<^verbatim>\<open>run(items)\<close>. The result is \<open>None\<close> when the fuel does not suffice, \<open>Some (Inl e)\<close>
  when the run ends as \<open>e\<close> says, and \<open>Some (Inr output)\<close> when it returns.
\<close>

definition run :: "config \<Rightarrow> nat \<Rightarrow> jsval \<Rightarrow> (error + jsval list) option" where
  "run cfg fuel items =
     (if \<not> isArray items then Some (Inl ItemsMustBeArray)
      else
        (case normalizeItems (normalize cfg) (elems items) of
           Inl e \<Rightarrow> Some (Inl e)
         | Inr items1 \<Rightarrow>
             (case mergeVirtuals (applySchema (schema cfg) items1) of
                Inl e \<Rightarrow> Some (Inl e)
              | Inr items3 \<Rightarrow>
                  (case sortItems (defaultGroup cfg) fuel (excludeDisabled items3) of
                     None \<Rightarrow> None
                   | Some (Inl e) \<Rightarrow> Some (Inl e)
                   | Some (Inr items5) \<Rightarrow> Some (Inr (finalizeItems (finalize cfg) items5))))))"

section \<open>The recursion of init on own entries\<close>

text \<open>
  \<open>init_own\<close> is \<open>init\<close> without the lookup of inherited members: a target that
  \<^verbatim>\<open>highIndices\<close> does not hold is skipped. The two agree whenever no target met is a name
  of \<open>object_prototype_names\<close> (lemma \<open>init_all_own_agrees\<close>); the proofs about orders are made
  on \<open>init_own\<close>.
\<close>

fun init_own :: "nat \<Rightarrow> jsval list list \<Rightarrow> (string \<rightharpoonup> nat) \<Rightarrow> nat \<Rightarrow> (nat \<rightharpoonup> int) \<Rightarrow> ((nat \<rightharpoonup> int) \<times> int) option"
  and init_each_own ::
    "nat \<Rightarrow> jsval list list \<Rightarrow> (string \<rightharpoonup> nat) \<Rightarrow> nat \<Rightarrow> jsval list \<Rightarrow> (nat \<rightharpoonup> int) \<Rightarrow> int option
       \<Rightarrow> ((nat \<rightharpoonup> int) \<times> int option) option" where
  "init_own 0 after highIndices idx orders = None"
| "init_own (Suc fuel) after highIndices idx orders =
     (if truthy_num (orders idx) then Some (orders, num_of (orders idx))
      else
        (let af = after ! idx in
         if af \<noteq> [] then
           (case init_each_own fuel after highIndices idx af
                   (orders(idx \<mapsto> int idx * CONSTRAINT_SCALE)) None of
              None \<Rightarrow> None
            | Some (orders', mx) \<Rightarrow>
                (let r = (if truthy_num mx then num_of mx + 1 else int idx * CONSTRAINT_SCALE)
                 in Some (orders'(idx \<mapsto> r), r)))
         else Some (orders(idx \<mapsto> int idx * CONSTRAINT_SCALE), int idx * CONSTRAINT_SCALE)))"
| "init_each_own fuel after highIndices idx [] orders mx = Some (orders, mx)"
| "init_each_own fuel after highIndices idx (target # targets) orders mx =
     (case highIndices (to_key target) of
        None \<Rightarrow> init_each_own fuel after highIndices idx targets orders mx
      | Some h \<Rightarrow>
          (case init_own fuel after highIndices h orders of
             None \<Rightarrow> None
           | Some (orders', val) \<Rightarrow>
               if \<not> truthy_num mx \<or> val > num_of mx
               then init_each_own fuel after highIndices idx targets (orders'(idx \<mapsto> val + 1)) (Some val)
               else init_each_own fuel after highIndices idx targets orders' mx))"

fun init_all_own ::
  "nat \<Rightarrow> jsval list list \<Rightarrow> (string \<rightharpoonup> nat) \<Rightarrow> nat list \<Rightarrow> (nat \<rightharpoonup> int) \<Rightarrow> (nat \<rightharpoonup> int) option" where
  "init_all_own fuel after highIndices [] orders = Some orders"
| "init_all_own fuel after highIndices (idx # rest) orders =
     (case init_own fuel after highIndices idx orders of
        None \<Rightarrow> None
      | Some (orders', val) \<Rightarrow> init_all_own fuel after highIndices rest orders')"

section \<open>The same code over a store\<close>

text \<open>
  Whether \<^verbatim>\<open>run\<close> shares objects or arrays with its caller cannot be read off values,
  so \<^verbatim>\<open>merge.js\<close> and \<^verbatim>\<open>PluginSorter.js\<close> are modelled a second time, over a store of
  cells. An address is an index into the store; allocation appends a cell; a value is a
  primitive or a reference. Here \<^verbatim>\<open>normalize\<close> and \<^verbatim>\<open>finalize\<close> are the defaults, and the
  schema is an object of the store. The tables of this model hold own entries only: on a
  name of \<open>object_prototype_names\<close> the code throws or writes to the prototype, never to
  a cell of the caller.
\<close>

datatype hval = HUndefined | HNull | HBool bool | HNum int | HStr string | HRef nat

datatype cell = CArr "hval list" | CObj "(string \<times> hval) list"

type_synonym heap = "cell list"


text \<open>The own properties of a value, as \<open>entries\<close> above; a dangling reference has none.\<close>

definition entries_h :: "heap \<Rightarrow> hval \<Rightarrow> (string \<times> hval) list" where
  "entries_h h v =
     (case v of
        HRef a \<Rightarrow>
          (if a < length h
           then (case h ! a of CObj fs \<Rightarrow> fs | CArr xs \<Rightarrow> zip (map digits [0..<length xs]) xs)
           else [])
      | HStr s \<Rightarrow> zip (map digits [0..<length s]) (map (\<lambda>c. HStr [c]) s)
      | _ \<Rightarrow> [])"



text \<open>
  \<^verbatim>\<open>_getType\<close> over the store. Modelled from the spec: \<^verbatim>\<open>@gourmet/is-plain-object\<close> is not
  among the sources; as for \<open>isPlainObject\<close> above, the plain records are the object cells.
\<close>

definition htype :: "heap \<Rightarrow> hval \<Rightarrow> jstype" where
  "htype h v =
     (case v of
        HRef a \<Rightarrow> (if a < length h then (case h ! a of CObj fs \<Rightarrow> OBJECT | CArr xs \<Rightarrow> ARRAY) else OTHER)
      | _ \<Rightarrow> OTHER)"

primrec set_field :: "string \<Rightarrow> hval \<Rightarrow> (string \<times> hval) list \<Rightarrow> (string \<times> hval) list" where
  "set_field k v [] = [(k, v)]"
| "set_field k v (p # ps) = (if fst p = k then (k, v) # ps else p # set_field k v ps)"

text \<open>\<^verbatim>\<open>des[k] = v\<close> for the object at address \<open>a\<close>, and the allocation of a new cell.\<close>

definition hset :: "heap \<Rightarrow> nat \<Rightarrow> string \<Rightarrow> hval \<Rightarrow> heap" where
  "hset h a k v = h[a := CObj (set_field k v (entries_h h (HRef a)))]"





















section \<open>Notions used in the statements\<close>

text \<open>The value that \<^verbatim>\<open>_merge\<close> computes for one property, and its conditional store.\<close>

definition new_value :: "jsval \<Rightarrow> jsval \<Rightarrow> jsval" where
  "new_value desVal srcVal =
     (if getType desVal = ARRAY \<and> srcVal \<noteq> JUndefined then JArr (js_concat (elems desVal) srcVal)
      else if getType srcVal = ARRAY \<and> desVal \<noteq> JUndefined then JArr (js_concat [desVal] srcVal)
      else (case srcVal of
              JObj s \<Rightarrow>
                (case desVal of
                   JObj d \<Rightarrow> JObj (merge_into d s)
                 | _ \<Rightarrow> JObj (merge_into [] s))
            | _ \<Rightarrow> srcVal))"

definition store :: "string \<Rightarrow> jsval \<Rightarrow> obj \<Rightarrow> obj" where
  "store p nv des = (if nv \<noteq> JUndefined then set_prop p nv des else des)"

text \<open>A scalar is a primitive value other than \<^verbatim>\<open>undefined\<close>.\<close>

fun scalar :: "jsval \<Rightarrow> bool" where
  "scalar JNull = True"
| "scalar (JBool b) = True"
| "scalar (JNum n) = True"
| "scalar (JStr s) = True"
| "scalar v = False"

section \<open>Inputs used below\<close>

definition named :: "string \<Rightarrow> obj \<Rightarrow> jsval" where
  "named n kvs = JObj ((''name'', JStr n) # kvs)"

definition group_zero_input :: jsval where
  "group_zero_input = JArr [named ''a'' [], named ''b'' [(''group'', JNum 0)]]"

definition self_after_input :: jsval where
  "self_after_input = JArr [named ''a'' [(''after'', JArr [JStr ''a''])]]"

definition self_before_input :: jsval where
  "self_before_input = JArr [named ''a'' [(''before'', JArr [JStr ''a''])]]"

text \<open>
  A real item and a virtual item of the same name that hold different scalars under
  \<^verbatim>\<open>a\<close>, as they reach \<^verbatim>\<open>_mergeVirtuals\<close>: once named \<^verbatim>\<open>x\<close>, once named \<^verbatim>\<open>valueOf\<close>.
\<close>

definition conflict_real :: "string \<Rightarrow> obj" where
  "conflict_real n =
     [(''after'', JArr []), (''before'', JArr []), (''name'', JStr n), (''a'', JNum 1)]"

definition conflict_virtual :: "string \<Rightarrow> obj" where
  "conflict_virtual n =
     [(''after'', JArr []), (''before'', JArr []), (''name'', JStr n), (''virtual'', JBool True),
      (''a'', JNum 2)]"

text \<open>
  Three items without \<^verbatim>\<open>group\<close>, \<^verbatim>\<open>after\<close> or \<^verbatim>\<open>before\<close>; the second is virtual.
\<close>

definition stable_input :: "jsval list" where
  "stable_input = [named ''a'' [], named ''valueOf'' [(''virtual'', JBool True)], named ''c'' []]"

text \<open>
  The state of the loop of \<^verbatim>\<open>_mergeVirtuals\<close> is sound for a set \<open>N\<close> of names when every
  emitted item is an object named by a string of \<open>N\<close> and every patch is an object filed
  under its own name.
\<close>

definition names_ok :: "string set \<Rightarrow> (string \<rightharpoonup> obj) \<times> obj list \<Rightarrow> bool" where
  "names_ok N st \<longleftrightarrow>
     (\<forall>e \<in> set (snd st). distinct (map fst e) \<and> (\<exists>n \<in> N. get_prop e ''name'' = JStr n)) \<and>
     (\<forall>k v. fst st k = Some v \<longrightarrow> distinct (map fst v) \<and> get_prop v ''name'' = JStr k)"

definition real_x :: jsval where
  "real_x = named ''x'' [(''a'', JNum 1)]"

definition virtual_x :: jsval where
  "virtual_x = named ''x'' [(''virtual'', JBool True), (''b'', JNum 2)]"

definition virtual_only_input :: "jsval list" where
  "virtual_only_input = [named ''y'' [(''virtual'', JBool True)], named ''x'' [(''a'', JNum 1)]]"


text \<open>The key under which the item at an index is filed in the index tables.\<close>

definition key_at :: "obj list \<Rightarrow> nat \<Rightarrow> string" where
  "key_at items j = to_key (get_prop (items ! j) ''name'')"

text \<open>
  The pushes that the conversion of \<^verbatim>\<open>before\<close> performs for one item, as pairs of a row
  of the \<^verbatim>\<open>after\<close> table and the pushed name, and their effect on the table.
\<close>

definition pushes_of :: "(string \<rightharpoonup> nat) \<Rightarrow> obj \<Rightarrow> (nat \<times> jsval) list" where
  "pushes_of lowIndices item =
     concat (map (\<lambda>t. case lowIndices (to_key t) of
                          None \<Rightarrow> []
                        | Some idx \<Rightarrow> [(idx, get_prop item ''name'')])
                 (elems (get_prop item ''before'')))"

definition push_all :: "(nat \<times> jsval) list \<Rightarrow> jsval list list \<Rightarrow> jsval list list" where
  "push_all ps after = fold (\<lambda>p after. after[fst p := after ! fst p @ [snd p]]) ps after"






















text \<open>The table that the conversion of \<^verbatim>\<open>before\<close> leaves when it does not throw.\<close>

definition after_rows :: "obj list \<Rightarrow> jsval list list" where
  "after_rows items =
     push_all (concat (map (pushes_of (fst (scan_indices items 0 Map.empty Map.empty))) items))
       (map (\<lambda>item. elems (get_prop item ''after'')) items)"



text \<open>
  Notions for the store. \<open>n0\<close> is the size of the store when \<^verbatim>\<open>run\<close> is called: the cells
  below \<open>n0\<close> are the caller's, the cells from \<open>n0\<close> on are allocated by \<^verbatim>\<open>run\<close>.
\<close>

fun is_obj :: "cell \<Rightarrow> bool" where
  "is_obj (CObj fs) = True"
| "is_obj (CArr xs) = False"

text \<open>\<open>h'\<close> is a later store: nothing was freed, the caller's cells are as they were, and no
  cell changed from object to array or back.\<close>

definition extends :: "nat \<Rightarrow> heap \<Rightarrow> heap \<Rightarrow> bool" where
  "extends n0 h h' \<longleftrightarrow>
     length h \<le> length h' \<and> (\<forall>a < n0. a < length h \<longrightarrow> h' ! a = h ! a) \<and>
     (\<forall>a < length h. is_obj (h' ! a) = is_obj (h ! a))"









section \<open>Properties of merge\<close>

text \<open>
  Every property is merged on its own: the value found under \<open>k\<close> after
  \<open>merge_into des src\<close> depends on the values under \<open>k\<close> in \<open>des\<close> and \<open>src\<close> only.
\<close>

lemma merge_into_Cons:
  "merge_into des ((p, v) # rest) = merge_into (store p (new_value (get_prop des p) v) des) rest"
  by (simp add: new_value_def store_def Let_def)

lemma get_prop_Nil [simp]: "get_prop [] k = JUndefined"
  by (simp add: get_prop_def)

lemma get_prop_Cons: "get_prop ((k', v) # kvs) k = (if k = k' then v else get_prop kvs k)"
  by (simp add: get_prop_def)

lemma get_prop_set_prop: "get_prop (set_prop k v des) k' = (if k' = k then v else get_prop des k')"
  by (induction des) (auto simp: get_prop_def)

lemma keys_set_prop: "fst ` set (set_prop k v des) = insert k (fst ` set des)"
  by (induction des) auto

lemma distinct_set_prop: "distinct (map fst des) \<Longrightarrow> distinct (map fst (set_prop k v des))"
  by (induction des) (auto simp: keys_set_prop)

lemma get_prop_store:
  "get_prop (store p nv des) k = (if k = p \<and> nv \<noteq> JUndefined then nv else get_prop des k)"
  by (simp add: store_def get_prop_set_prop)

lemma distinct_store: "distinct (map fst des) \<Longrightarrow> distinct (map fst (store p nv des))"
  by (simp add: store_def distinct_set_prop)

lemma distinct_merge_into: "distinct (map fst des) \<Longrightarrow> distinct (map fst (merge_into des src))"
proof (induction src arbitrary: des)
  case Nil
  then show ?case by simp
next
  case (Cons a src)
  obtain p v where a: "a = (p, v)" by (cases a)
  show ?case unfolding a merge_into_Cons
    by (rule Cons.IH) (rule distinct_store[OF Cons.prems])
qed

lemma get_prop_merge_into_notin:
  "k \<notin> fst ` set src \<Longrightarrow> get_prop (merge_into des src) k = get_prop des k"
proof (induction src arbitrary: des)
  case Nil
  then show ?case by simp
next
  case (Cons a src)
  obtain p v where a: "a = (p, v)" by (cases a)
  from Cons.prems a have "k \<noteq> p" "k \<notin> fst ` set src" by auto
  then show ?case unfolding a merge_into_Cons
    by (simp add: Cons.IH get_prop_store)
qed

lemma get_prop_merge_into_in:
  "distinct (map fst src) \<Longrightarrow> (k, v) \<in> set src \<Longrightarrow>
   get_prop (merge_into des src) k =
     (if new_value (get_prop des k) v \<noteq> JUndefined then new_value (get_prop des k) v
      else get_prop des k)"
proof (induction src arbitrary: des)
  case Nil
  then show ?case by simp
next
  case (Cons a src)
  obtain p w where a: "a = (p, w)" by (cases a)
  show ?case
  proof (cases "p = k")
    case True
    with Cons.prems a have "w = v" "k \<notin> fst ` set src"
      by (auto simp: rev_image_eqI)
    then show ?thesis unfolding a merge_into_Cons True
      by (simp add: get_prop_merge_into_notin get_prop_store)
  next
    case False
    with Cons.prems a have "(k, v) \<in> set src" "distinct (map fst src)" by auto
    from Cons.IH[OF this(2) this(1)] False show ?thesis unfolding a merge_into_Cons
      by (simp add: get_prop_store)
  qed
qed

lemma map_of_distinct_get_prop:
  "distinct (map fst kvs) \<Longrightarrow> (k, v) \<in> set kvs \<Longrightarrow> get_prop kvs k = v"
  by (simp add: get_prop_def)

lemma get_prop_in_set: "get_prop kvs k \<noteq> JUndefined \<Longrightarrow> (k, get_prop kvs k) \<in> set kvs"
  by (auto simp: get_prop_def split: option.splits dest: map_of_SomeD)

lemma get_prop_notin: "k \<notin> fst ` set kvs \<Longrightarrow> get_prop kvs k = JUndefined"
  by (simp add: get_prop_def map_of_eq_None_iff[THEN iffD2])

lemma new_value_undef [simp]: "new_value d JUndefined = JUndefined"
  by (simp add: new_value_def getType_def)

lemma get_prop_merge_into:
  assumes "distinct (map fst src)"
  shows "get_prop (merge_into des src) k =
     (if new_value (get_prop des k) (get_prop src k) \<noteq> JUndefined
      then new_value (get_prop des k) (get_prop src k) else get_prop des k)"
proof (cases "k \<in> fst ` set src")
  case True
  then obtain v where v: "(k, v) \<in> set src" by auto
  with assms have "get_prop src k = v" by (rule map_of_distinct_get_prop)
  with get_prop_merge_into_in[OF assms v] show ?thesis by simp
next
  case False
  then show ?thesis
    by (simp add: get_prop_merge_into_notin get_prop_notin)
qed

lemma new_value_scalar: "scalar d \<Longrightarrow> scalar s \<Longrightarrow> new_value d s = s"
  by (cases d; cases s) (simp_all add: new_value_def getType_def)

lemma new_value_undef_scalar: "scalar s \<Longrightarrow> new_value JUndefined s = s"
  by (cases s) (simp_all add: new_value_def getType_def)


section \<open>Fuel\<close>





section \<open>Properties of omit\<close>

lemma get_prop_omit: "get_prop (omit item k') k = (if k = k' then JUndefined else get_prop item k)"
  by (induction item) (auto simp: omit_def get_prop_def)

lemma distinct_omit: "distinct (map fst item) \<Longrightarrow> distinct (map fst (omit item k))"
  by (simp add: omit_def distinct_map_filter)

section \<open>Where init and its recursion on own entries agree\<close>

text \<open>
  A run of \<open>init\<close> that returns has met no inherited member, so \<open>init_own\<close> returns the
  same.
\<close>

lemma init_returns_own_aux:
  "(\<forall>r. init f A H i os = Some (Inr r) \<longrightarrow> init_own f A H i os = Some r)"
  "(\<forall>r. init_each f A H i ts os mx = Some (Inr r) \<longrightarrow> init_each_own f A H i ts os mx = Some r)"
proof (induction f A H i os and f A H i ts os mx rule: init_own_init_each_own.induct)
  case (1 after highIndices idx orders)
  then show ?case by simp
next
  case (2 fuel after highIndices idx orders)
  show ?case
  proof (intro allI impI)
    fix r
    assume a: "init (Suc fuel) after highIndices idx orders = Some (Inr r)"
    show "init_own (Suc fuel) after highIndices idx orders = Some r"
    proof (cases "truthy_num (orders idx)")
      case True
      then show ?thesis using a by simp
    next
      case nt: False
      show ?thesis
      proof (cases "after ! idx = []")
        case True
        then show ?thesis using a nt by simp
      next
        case ne: False
        from a nt ne obtain o' m where
          e: "init_each fuel after highIndices idx (after ! idx)
                (orders(idx \<mapsto> int idx * CONSTRAINT_SCALE)) None = Some (Inr (o', m))"
          by (auto simp: Let_def split: option.splits sum.splits)
        from "2.IH"[OF nt refl ne] e
        have "init_each_own fuel after highIndices idx (after ! idx)
                (orders(idx \<mapsto> int idx * CONSTRAINT_SCALE)) None = Some (o', m)"
          by blast
        with a e nt ne show ?thesis by (simp add: Let_def)
      qed
    qed
  qed
next
  case (3 fuel after highIndices idx orders mx)
  then show ?case by simp
next
  case (4 fuel after highIndices idx target targets orders mx)
  show ?case
  proof (intro allI impI)
    fix r
    assume a: "init_each fuel after highIndices idx (target # targets) orders mx = Some (Inr r)"
    show "init_each_own fuel after highIndices idx (target # targets) orders mx = Some r"
    proof (cases "highIndices (to_key target)")
      case None
      with a have "init_each fuel after highIndices idx targets orders mx = Some (Inr r)"
        by (simp split: if_splits)
      with "4.IH"(1)[OF None] have "init_each_own fuel after highIndices idx targets orders mx = Some r"
        by blast
      with None show ?thesis by simp
    next
      case (Some h)
      from a Some obtain o' v where
        e: "init fuel after highIndices h orders = Some (Inr (o', v))"
        by (auto split: option.splits sum.splits)
      from "4.IH"(2)[OF Some] e have e': "init_own fuel after highIndices h orders = Some (o', v)"
        by blast
      show ?thesis
      proof (cases "\<not> truthy_num mx \<or> v > num_of mx")
        case True
        with a Some e have "init_each fuel after highIndices idx targets (o'(idx \<mapsto> v + 1)) (Some v) = Some (Inr r)"
          by simp
        with "4.IH"(3)[OF Some e' refl True]
        have "init_each_own fuel after highIndices idx targets (o'(idx \<mapsto> v + 1)) (Some v) = Some r"
          by blast
        with Some e' True show ?thesis by simp
      next
        case False
        with a Some e have "init_each fuel after highIndices idx targets o' mx = Some (Inr r)"
          by simp
        with "4.IH"(4)[OF Some e' refl False]
        have "init_each_own fuel after highIndices idx targets o' mx = Some r"
          by blast
        with Some e' False show ?thesis by simp
      qed
    qed
  qed
qed

lemma init_all_returns_own:
  "init_all f A H is os = Some (Inr r) \<Longrightarrow> init_all_own f A H is os = Some r"
proof (induction "is" arbitrary: os)
  case Nil
  then show ?case by simp
next
  case (Cons i "is")
  from Cons.prems obtain o' v where e: "init f A H i os = Some (Inr (o', v))"
    and r: "init_all f A H is o' = Some (Inr r)"
    by (auto split: option.splits sum.splits)
  from init_returns_own_aux(1)[of f A H i os] e have "init_own f A H i os = Some (o', v)" by blast
  with Cons.IH[OF r] show ?case by simp
qed

text \<open>
  When no target of the table is the name of an inherited member, \<open>init\<close> is \<open>init_own\<close>:
  it returns the same, or it does not return either.
\<close>

lemma init_own_agrees_aux:
  "(\<forall>i < length A. \<forall>t \<in> set (A ! i). \<not> inherited (to_key t)) \<longrightarrow>
   (\<forall>k h. H k = Some h \<longrightarrow> h < length A) \<longrightarrow> i < length A \<longrightarrow>
     init f A H i os = map_option Inr (init_own f A H i os)"
  "(\<forall>i < length A. \<forall>t \<in> set (A ! i). \<not> inherited (to_key t)) \<longrightarrow>
   (\<forall>k h. H k = Some h \<longrightarrow> h < length A) \<longrightarrow> (\<forall>t \<in> set ts. \<not> inherited (to_key t)) \<longrightarrow>
     init_each f A H i ts os mx = map_option Inr (init_each_own f A H i ts os mx)"
proof (induction f A H i os and f A H i ts os mx rule: init_own_init_each_own.induct)
  case (1 after highIndices idx orders)
  then show ?case by simp
next
  case (2 fuel after highIndices idx orders)
  show ?case
  proof (intro impI)
    assume rows: "\<forall>i < length after. \<forall>t \<in> set (after ! i). \<not> inherited (to_key t)"
      and rng: "\<forall>k h. highIndices k = Some h \<longrightarrow> h < length after" and i: "idx < length after"
    show "init (Suc fuel) after highIndices idx orders =
            map_option Inr (init_own (Suc fuel) after highIndices idx orders)"
    proof (cases "truthy_num (orders idx)")
      case True
      then show ?thesis by simp
    next
      case nt: False
      show ?thesis
      proof (cases "after ! idx = []")
        case True
        then show ?thesis using nt by simp
      next
        case ne: False
        from rows i have "\<forall>t \<in> set (after ! idx). \<not> inherited (to_key t)" by simp
        with "2.IH"[OF nt refl ne] rows rng
        have e: "init_each fuel after highIndices idx (after ! idx)
                (orders(idx \<mapsto> int idx * CONSTRAINT_SCALE)) None =
              map_option Inr (init_each_own fuel after highIndices idx (after ! idx)
                (orders(idx \<mapsto> int idx * CONSTRAINT_SCALE)) None)"
          by blast
        show ?thesis using nt ne
          by (simp add: Let_def e split: option.splits)
      qed
    qed
  qed
next
  case (3 fuel after highIndices idx orders mx)
  then show ?case by simp
next
  case (4 fuel after highIndices idx target targets orders mx)
  show ?case
  proof (intro impI)
    assume rows: "\<forall>i < length after. \<forall>t \<in> set (after ! i). \<not> inherited (to_key t)"
      and rng: "\<forall>k h. highIndices k = Some h \<longrightarrow> h < length after"
      and ts: "\<forall>t \<in> set (target # targets). \<not> inherited (to_key t)"
    from ts have t: "\<not> inherited (to_key target)" and ts': "\<forall>t \<in> set targets. \<not> inherited (to_key t)"
      by simp_all
    show "init_each fuel after highIndices idx (target # targets) orders mx =
            map_option Inr (init_each_own fuel after highIndices idx (target # targets) orders mx)"
    proof (cases "highIndices (to_key target)")
      case None
      from "4.IH"(1)[OF None] rows rng ts'
      have "init_each fuel after highIndices idx targets orders mx =
              map_option Inr (init_each_own fuel after highIndices idx targets orders mx)"
        by blast
      with None t show ?thesis by simp
    next
      case (Some h)
      with rng have "h < length after" by blast
      with "4.IH"(2)[OF Some] rows rng
      have e: "init fuel after highIndices h orders = map_option Inr (init_own fuel after highIndices h orders)"
        by blast
      show ?thesis
      proof (cases "init_own fuel after highIndices h orders")
        case None
        with Some e show ?thesis by simp
      next
        case own: (Some p)
        obtain o' v where p: "p = (o', v)" by (cases p)
        note e' = own[unfolded p]
        show ?thesis
        proof (cases "\<not> truthy_num mx \<or> v > num_of mx")
          case True
          from "4.IH"(3)[OF Some e' refl True] rows rng ts'
          have "init_each fuel after highIndices idx targets (o'(idx \<mapsto> v + 1)) (Some v) =
                 map_option Inr (init_each_own fuel after highIndices idx targets (o'(idx \<mapsto> v + 1)) (Some v))"
            by blast
          with Some e e' True show ?thesis by simp
        next
          case False
          from "4.IH"(4)[OF Some e' refl False] rows rng ts'
          have "init_each fuel after highIndices idx targets o' mx =
                 map_option Inr (init_each_own fuel after highIndices idx targets o' mx)"
            by blast
          with Some e e' False show ?thesis by simp
        qed
      qed
    qed
  qed
qed

lemma init_all_own_agrees:
  assumes rows: "\<forall>i < length A. \<forall>t \<in> set (A ! i). \<not> inherited (to_key t)"
    and rng: "\<forall>k h. H k = Some h \<longrightarrow> h < length A"
  shows "\<forall>i \<in> set is. i < length A \<Longrightarrow>
         init_all f A H is os = map_option Inr (init_all_own f A H is os)"
proof (induction "is" arbitrary: os)
  case Nil
  then show ?case by simp
next
  case (Cons i "is")
  from Cons.prems have i: "i < length A" and r: "\<forall>i \<in> set is. i < length A" by simp_all
  from init_own_agrees_aux(1)[of A H i f os] rows rng i
  have e: "init f A H i os = map_option Inr (init_own f A H i os)" by blast
  show ?case
  proof (cases "init_own f A H i os")
    case None
    with e show ?thesis by simp
  next
    case (Some p)
    obtain o' v where p: "p = (o', v)" by (cases p)
    from Cons.IH[OF r, of o'] e Some p show ?thesis by simp
  qed
qed

text \<open>More fuel never changes the way \<open>init\<close> ends either.\<close>

lemma init_more_fuel_aux:
  "(\<forall>r f'. init f A H i os = Some r \<longrightarrow> f \<le> f' \<longrightarrow> init f' A H i os = Some r)"
  "(\<forall>r f'. init_each f A H i ts os mx = Some r \<longrightarrow> f \<le> f' \<longrightarrow> init_each f' A H i ts os mx = Some r)"
proof (induction f A H i os and f A H i ts os mx rule: init_own_init_each_own.induct)
  case (1 after highIndices idx orders)
  then show ?case by simp
next
  case (2 fuel after highIndices idx orders)
  show ?case
  proof (intro allI impI)
    fix r f'
    assume a: "init (Suc fuel) after highIndices idx orders = Some r" and le: "Suc fuel \<le> f'"
    then obtain g where g: "f' = Suc g" "fuel \<le> g" by (cases f') auto
    show "init f' after highIndices idx orders = Some r"
    proof (cases "truthy_num (orders idx)")
      case True
      then show ?thesis using a unfolding g(1) by simp
    next
      case nt: False
      show ?thesis
      proof (cases "after ! idx = []")
        case True
        then show ?thesis using a nt unfolding g(1) by simp
      next
        case ne: False
        from a nt ne obtain q where
          e: "init_each fuel after highIndices idx (after ! idx)
                (orders(idx \<mapsto> int idx * CONSTRAINT_SCALE)) None = Some q"
          by (auto simp: Let_def split: option.splits)
        from "2.IH"[OF nt refl ne] e g(2)
        have "init_each g after highIndices idx (after ! idx)
                (orders(idx \<mapsto> int idx * CONSTRAINT_SCALE)) None = Some q"
          by blast
        with a e nt ne show ?thesis unfolding g(1) by (simp add: Let_def)
      qed
    qed
  qed
next
  case (3 fuel after highIndices idx orders mx)
  then show ?case by simp
next
  case (4 fuel after highIndices idx target targets orders mx)
  show ?case
  proof (intro allI impI)
    fix r f'
    assume a: "init_each fuel after highIndices idx (target # targets) orders mx = Some r" and le: "fuel \<le> f'"
    show "init_each f' after highIndices idx (target # targets) orders mx = Some r"
    proof (cases "highIndices (to_key target)")
      case None
      show ?thesis
      proof (cases "inherited (to_key target)")
        case True
        with a None show ?thesis by simp
      next
        case False
        with a None have "init_each fuel after highIndices idx targets orders mx = Some r" by simp
        with le "4.IH"(1)[OF None] have "init_each f' after highIndices idx targets orders mx = Some r" by blast
        with None False show ?thesis by simp
      qed
    next
      case (Some h)
      from a Some obtain q where e: "init fuel after highIndices h orders = Some q"
        by (auto split: option.splits)
      from "4.IH"(2)[OF Some] e le have e': "init f' after highIndices h orders = Some q"
        by blast
      show ?thesis
      proof (cases q)
        case (Inl err)
        with a Some e e' show ?thesis by simp
      next
        case (Inr p)
        obtain o' v where p: "p = (o', v)" by (cases p)
        from init_returns_own_aux(1)[of fuel after highIndices h orders] e Inr p
        have own: "init_own fuel after highIndices h orders = Some (o', v)" by simp
        show ?thesis
        proof (cases "\<not> truthy_num mx \<or> v > num_of mx")
          case True
          with a Some e Inr p
          have "init_each fuel after highIndices idx targets (o'(idx \<mapsto> v + 1)) (Some v) = Some r"
            by simp
          with le "4.IH"(3)[OF Some own refl True]
          have "init_each f' after highIndices idx targets (o'(idx \<mapsto> v + 1)) (Some v) = Some r"
            by blast
          with Some e' Inr p True show ?thesis by simp
        next
          case False
          with a Some e Inr p
          have "init_each fuel after highIndices idx targets o' mx = Some r"
            by simp
          with le "4.IH"(4)[OF Some own refl False]
          have "init_each f' after highIndices idx targets o' mx = Some r"
            by blast
          with Some e' Inr p False show ?thesis by simp
        qed
      qed
    qed
  qed
qed

lemma init_more_fuel: "init f A H i os = Some r \<Longrightarrow> f \<le> f' \<Longrightarrow> init f' A H i os = Some r"
  using init_more_fuel_aux(1) by blast

lemma init_all_more_fuel:
  "init_all f A H is os = Some r \<Longrightarrow> f \<le> f' \<Longrightarrow> init_all f' A H is os = Some r"
proof (induction "is" arbitrary: os)
  case Nil
  then show ?case by simp
next
  case (Cons i "is")
  from Cons.prems(1) obtain q where e: "init f A H i os = Some q"
    by (auto split: option.splits)
  note e' = init_more_fuel[OF e Cons.prems(2)]
  show ?case
  proof (cases q)
    case (Inl err)
    with Cons.prems(1) e e' show ?thesis by simp
  next
    case (Inr p)
    obtain o' v where p: "p = (o', v)" by (cases p)
    with Cons.prems(1) e Inr have "init_all f A H is o' = Some r" by simp
    from Cons.IH[OF this Cons.prems(2)] e' Inr p show ?thesis by simp
  qed
qed

lemma getConstraintOrders_mono:
  "getConstraintOrders f items = Some r \<Longrightarrow> f \<le> f' \<Longrightarrow> getConstraintOrders f' items = Some r"
  unfolding getConstraintOrders_def
  by (cases "after_table items") (auto dest: init_all_more_fuel)

lemma sortItems_mono:
  "sortItems dg f items = Some r \<Longrightarrow> f \<le> f' \<Longrightarrow> sortItems dg f' items = Some r"
proof -
  assume a: "sortItems dg f items = Some r" and le: "f \<le> f'"
  from a obtain q where q: "getConstraintOrders f items = Some q"
    unfolding sortItems_def by (cases "getConstraintOrders f items") simp_all
  from getConstraintOrders_mono[OF q le] a q show ?thesis
    unfolding sortItems_def by simp
qed

lemma run_mono:
  "run cfg f items = Some r \<Longrightarrow> f \<le> f' \<Longrightarrow> run cfg f' items = Some r"
proof -
  assume a: "run cfg f items = Some r" and le: "f \<le> f'"
  show ?thesis
  proof (cases "isArray items")
    case False
    with a show ?thesis by (simp add: run_def)
  next
    case arr: True
    show ?thesis
    proof (cases "normalizeItems (normalize cfg) (elems items)")
      case (Inl e)
      with a arr show ?thesis by (simp add: run_def)
    next
      case n: (Inr items1)
      show ?thesis
      proof (cases "mergeVirtuals (applySchema (schema cfg) items1)")
        case (Inl e)
        with a arr n show ?thesis by (simp add: run_def)
      next
        case m: (Inr items3)
        from a arr n m obtain q where
          s: "sortItems (defaultGroup cfg) f (excludeDisabled items3) = Some q"
          unfolding run_def
          by (cases "sortItems (defaultGroup cfg) f (excludeDisabled items3)") simp_all
        from sortItems_mono[OF s le] a s arr n m show ?thesis
          unfolding run_def by simp
      qed
    qed
  qed
qed

section \<open>Names through schema application and virtual merge\<close>

lemma new_value_same_str: "new_value (JStr n) (JStr n) = JStr n"
  by (simp add: new_value_def getType_def)

lemma new_value_undef_str: "new_value JUndefined (JStr n) = JStr n"
  by (simp add: new_value_def getType_def)

lemma truthy_new_value_undef: "truthy v \<Longrightarrow> truthy (new_value JUndefined v)"
  by (cases v) (simp_all add: new_value_def getType_def)

lemma truthy_not_undef: "truthy v \<Longrightarrow> v \<noteq> JUndefined"
  by auto

lemma name_merge_into:
  assumes "distinct (map fst src)" "get_prop src ''name'' = JStr n"
    and "get_prop des ''name'' = JStr n \<or> get_prop des ''name'' = JUndefined"
  shows "get_prop (merge_into des src) ''name'' = JStr n"
  using assms(2,3)
  by (auto simp: get_prop_merge_into[OF assms(1)] new_value_same_str new_value_undef_str)

lemma merge_skip:
  "''name'' \<notin> fst ` set (entries s) \<Longrightarrow>
   get_prop (if truthy s then merge_into des (entries s) else des) ''name'' = get_prop des ''name''"
  by (simp add: get_prop_merge_into_notin)

lemma distinct_base: "distinct (map fst base_item)"
  by (simp add: base_item_def)

lemma distinct_merge: "distinct (map fst des) \<Longrightarrow> distinct (map fst (merge des srcs))"
  by (induction srcs arbitrary: des) (auto simp: distinct_merge_into)

lemma applySchema_item:
  assumes d: "distinct (map fst r)" and n: "get_prop r ''name'' = JStr n"
    and sch: "\<And>k. ''name'' \<notin> fst ` set (entries (get_prop sch k))"
    and e: "e \<in> set (applySchema sch [r])"
  shows "distinct (map fst e) \<and> get_prop e ''name'' = JStr n \<and>
         (truthy (get_prop r ''virtual'') \<longrightarrow> truthy (get_prop e ''virtual''))"
proof (cases "truthy (get_prop r ''virtual'')")
  case True
  with e have e: "e = merge_into base_item r" by (simp add: applySchema_def)
  have "get_prop e ''name'' = JStr n"
    unfolding e by (rule name_merge_into[OF d n]) (simp add: base_item_def get_prop_def)
  moreover have "truthy (get_prop e ''virtual'')"
    unfolding e using True truthy_new_value_undef[OF True]
    by (auto simp: get_prop_merge_into[OF d] base_item_def get_prop_Cons)
  moreover have "distinct (map fst e)" unfolding e by (rule distinct_merge_into[OF distinct_base])
  ultimately show ?thesis by simp
next
  case False
  let ?s = "get_prop sch ''*''" and ?t = "get_prop sch (to_key (get_prop r ''name''))"
  let ?d1 = "if truthy ?s then merge_into base_item (entries ?s) else base_item"
  let ?d2 = "if truthy ?t then merge_into ?d1 (entries ?t) else ?d1"
  from False e have e: "e = merge_into ?d2 r" by (simp add: applySchema_def Let_def)
  have "get_prop ?d1 ''name'' = JUndefined"
    using merge_skip[OF sch, of "''*''" base_item] by (simp add: base_item_def get_prop_def)
  then have "get_prop ?d2 ''name'' = JUndefined"
    using merge_skip[OF sch, of "to_key (get_prop r ''name'')" ?d1] by simp
  then have "get_prop e ''name'' = JStr n"
    unfolding e by (intro name_merge_into[OF d n]) simp
  moreover have "distinct (map fst e)" unfolding e
    by (intro distinct_merge_into) (auto simp: distinct_base distinct_merge_into)
  ultimately show ?thesis using False by simp
qed


lemma names_ok_step:
  assumes d: "distinct (map fst item)" and n: "get_prop item ''name'' = JStr n"
    and J: "names_ok N st" and r: "mergeVirtuals_step item st = Inr st'"
  shows "names_ok (if truthy (get_prop item ''virtual'') then N else insert n N) st'"
proof (cases "truthy (get_prop item ''virtual'')")
  case True
  let ?i = "omit item ''virtual''"
  have di: "distinct (map fst ?i)" using d by (rule distinct_omit)
  have ni: "get_prop ?i ''name'' = JStr n" using n by (simp add: get_prop_omit)
  let ?p = "case fst st n of Some v' \<Rightarrow> merge v' [JObj ?i] | None \<Rightarrow> ?i"
  have p: "distinct (map fst ?p) \<and> get_prop ?p ''name'' = JStr n"
  proof (cases "fst st n")
    case None
    then show ?thesis using di ni by simp
  next
    case (Some v')
    with J have "distinct (map fst v')" "get_prop v' ''name'' = JStr n"
      by (auto simp: names_ok_def)
    with Some show ?thesis
      by (simp add: distinct_merge_into name_merge_into[OF di ni])
  qed
  have o: "distinct (map fst (if strict_eq (get_prop e ''name'') (JStr n) then merge e [JObj ?i] else e)) \<and>
      (\<exists>m \<in> N. get_prop (if strict_eq (get_prop e ''name'') (JStr n) then merge e [JObj ?i] else e) ''name'' = JStr m)"
    if "e \<in> set (snd st)" for e
  proof -
    from J that obtain m where de: "distinct (map fst e)" and m: "m \<in> N" "get_prop e ''name'' = JStr m"
      by (auto simp: names_ok_def)
    show ?thesis
    proof (cases "m = n")
      case True
      with m de show ?thesis
        by (auto simp: distinct_merge_into name_merge_into[OF di ni])
    next
      case False
      with m de show ?thesis by auto
    qed
  qed
  have st: "st' =
      ((fst st)(n \<mapsto> ?p),
       map (\<lambda>e. if strict_eq (get_prop e ''name'') (JStr n) then merge e [JObj ?i] else e) (snd st))"
    using True n r by (cases "fst st n") (auto simp: mergeVirtuals_step_def Let_def split: if_splits)
  let ?f = "\<lambda>e. if strict_eq (get_prop e ''name'') (JStr n) then merge e [JObj ?i] else e"
  have 1: "\<forall>e \<in> set (map ?f (snd st)). distinct (map fst e) \<and> (\<exists>m \<in> N. get_prop e ''name'' = JStr m)"
    unfolding set_map using o by blast
  have 2: "\<forall>k v. ((fst st)(n \<mapsto> ?p)) k = Some v \<longrightarrow> distinct (map fst v) \<and> get_prop v ''name'' = JStr k"
  proof (intro allI impI)
    fix k v assume kv: "((fst st)(n \<mapsto> ?p)) k = Some v"
    show "distinct (map fst v) \<and> get_prop v ''name'' = JStr k"
    proof (cases "k = n")
      case True
      with kv have "v = ?p" by simp
      with p True show ?thesis by blast
    next
      case False
      with kv have "fst st k = Some v" by simp
      with J show ?thesis by (simp add: names_ok_def)
    qed
  qed
  show ?thesis
    unfolding st names_ok_def using True 1 2 by simp
next
  case False
  let ?new = "case fst st n of Some v' \<Rightarrow> merge [] [JObj v', JObj item]
              | None \<Rightarrow> if inherited n then merge [] [JObj item] else item"
  have copy: "distinct (map fst (merge_into [] item)) \<and> get_prop (merge_into [] item) ''name'' = JStr n"
    using name_merge_into[OF d n, of "[]"] distinct_merge_into[of "[]" item] by simp
  have new: "distinct (map fst ?new) \<and> get_prop ?new ''name'' = JStr n"
  proof (cases "fst st n")
    case None
    then show ?thesis using d n copy by simp
  next
    case (Some v')
    with J have "distinct (map fst v')" "get_prop v' ''name'' = JStr n"
      by (auto simp: names_ok_def)
    then have "get_prop (merge_into [] v') ''name'' = JStr n"
      by (intro name_merge_into) simp_all
    with Some show ?thesis
      by (simp add: distinct_merge_into name_merge_into[OF d n])
  qed
  have st: "st' = (fst st, snd st @ [?new])"
    using False n r by (cases "fst st n") (auto simp: mergeVirtuals_step_def Let_def)
  have "\<forall>e \<in> set (snd st @ [?new]). distinct (map fst e) \<and> (\<exists>m \<in> insert n N. get_prop e ''name'' = JStr m)"
    using new J unfolding names_ok_def by auto
  then show ?thesis
    unfolding st names_ok_def using False J by (simp add: names_ok_def)
qed

lemma names_ok_mono: "names_ok N st \<Longrightarrow> N \<subseteq> M \<Longrightarrow> names_ok M st"
  unfolding names_ok_def by blast

lemma names_ok_loop:
  assumes "\<forall>r \<in> set items. distinct (map fst r) \<and> (\<exists>n. get_prop r ''name'' = JStr n)"
    and "names_ok N st" and "mergeVirtuals_loop items st = Inr st'"
  shows "names_ok (N \<union> {n. \<exists>r \<in> set items. \<not> truthy (get_prop r ''virtual'') \<and> get_prop r ''name'' = JStr n}) st'"
  using assms
proof (induction items arbitrary: N st)
  case Nil
  then show ?case by simp
next
  case (Cons a items)
  from Cons.prems(1) obtain n where d: "distinct (map fst a)" and n: "get_prop a ''name'' = JStr n"
    by auto
  from Cons.prems(3) obtain st1 where s1: "mergeVirtuals_step a st = Inr st1"
    and l: "mergeVirtuals_loop items st1 = Inr st'"
    by (cases "mergeVirtuals_step a st") simp_all
  let ?N = "if truthy (get_prop a ''virtual'') then N else insert n N"
  from names_ok_step[OF d n Cons.prems(2) s1] have "names_ok ?N st1" .
  from Cons.IH[OF _ this l] Cons.prems(1)
  have "names_ok (?N \<union> {n. \<exists>r \<in> set items. \<not> truthy (get_prop r ''virtual'') \<and> get_prop r ''name'' = JStr n}) st'"
    by simp
  then show ?case
    by (rule names_ok_mono) (use n in auto)
qed

lemma mergeVirtuals_names:
  assumes "\<forall>r \<in> set items. distinct (map fst r) \<and> (\<exists>n. get_prop r ''name'' = JStr n)"
    and "mergeVirtuals items = Inr out" and "e \<in> set out"
  shows "\<exists>r \<in> set items. \<not> truthy (get_prop r ''virtual'') \<and> get_prop r ''name'' = get_prop e ''name''"
proof -
  from assms(2) obtain st' where l: "mergeVirtuals_loop items (Map.empty, []) = Inr st'" and o: "out = snd st'"
    unfolding mergeVirtuals_def by (cases "mergeVirtuals_loop items (Map.empty, [])") auto
  have "names_ok {} (Map.empty, [])" by (simp add: names_ok_def)
  from names_ok_loop[OF assms(1) this l]
  have "\<forall>e \<in> set out. \<exists>n. (\<exists>r \<in> set items.
      \<not> truthy (get_prop r ''virtual'') \<and> get_prop r ''name'' = JStr n) \<and> get_prop e ''name'' = JStr n"
    unfolding o names_ok_def by auto
  with assms(3) show ?thesis by fastforce
qed

lemma set_insort_cmp: "set (insort_cmp c x ys) = insert x (set ys)"
  by (induction ys) auto

lemma set_sort_cmp: "set (sort_cmp c xs) = set xs"
  unfolding sort_cmp_def by (induction xs) (auto simp: set_insort_cmp)

lemma pushed_props:
  assumes "e \<in> set (pushed items after)"
  shows "\<exists>r \<in> set items. \<forall>k. k \<noteq> ''after'' \<longrightarrow> get_prop e k = get_prop r k"
proof -
  from assms obtain r af where "(r, af) \<in> set (zip items after)"
    and e: "e = (if isArray (get_prop r ''after'') then set_prop ''after'' (JArr af) r else r)"
    unfolding pushed_def by auto
  then have "r \<in> set items" by (auto dest: set_zip_leftD)
  moreover have "\<forall>k. k \<noteq> ''after'' \<longrightarrow> get_prop e k = get_prop r k"
    unfolding e by (simp add: get_prop_set_prop)
  ultimately show ?thesis by blast
qed

lemma sortItems_set:
  assumes "sortItems dg fuel items = Some (Inr items5)"
  shows "\<exists>after. set items5 \<subseteq> set (pushed items after)"
proof -
  from assms obtain orders after where
    "items5 = map fst (sort_cmp (compare_items dg)
        (map (\<lambda>(item, idx). (item, num_of (orders idx), idx)) (zip (pushed items after) [0..<length items])))"
    unfolding sortItems_def by (auto simp: Let_def split: option.splits sum.splits)
  then have "set items5 = fst ` set (map (\<lambda>(item, idx). (item, num_of (orders idx), idx))
       (zip (pushed items after) [0..<length items]))"
    by (simp add: set_sort_cmp)
  also have "\<dots> \<subseteq> set (pushed items after)"
    by (auto dest: set_zip_leftD)
  finally show ?thesis by blast
qed

lemma sortItems_props:
  assumes "sortItems dg fuel items = Some (Inr items5)" and "e \<in> set items5"
  shows "\<exists>r \<in> set items. \<forall>k. k \<noteq> ''after'' \<longrightarrow> get_prop e k = get_prop r k"
proof -
  from sortItems_set[OF assms(1)] assms(2) obtain after where "e \<in> set (pushed items after)"
    by blast
  then show ?thesis by (rule pushed_props)
qed

lemma excludeDisabled_subset: "set (excludeDisabled items) \<subseteq> set items"
  by (auto simp: excludeDisabled_def)

lemma run_real_virtual:
  "run default_config 1 (JArr [real_x, virtual_x]) =
     Some (Inr [JObj [(''after'', JArr []), (''before'', JArr []), (''name'', JStr ''x''),
                      (''a'', JNum 1), (''b'', JNum 2)]])"
  by code_simp

lemma run_virtual_real:
  "run default_config 1 (JArr [virtual_x, real_x]) =
     Some (Inr [JObj [(''after'', JArr []), (''before'', JArr []), (''name'', JStr ''x''),
                      (''b'', JNum 2), (''a'', JNum 1)]])"
  by code_simp

lemma same_record:
  "get_prop [(''after'', JArr []), (''before'', JArr []), (''name'', JStr ''x''), (''a'', JNum 1), (''b'', JNum 2)] k =
   get_prop [(''after'', JArr []), (''before'', JArr []), (''name'', JStr ''x''), (''b'', JNum 2), (''a'', JNum 1)] k"
  by (simp add: get_prop_def)

lemma applySchema_set:
  "e \<in> set (applySchema sch items) \<Longrightarrow> \<exists>r \<in> set items. e \<in> set (applySchema sch [r])"
  by (auto simp: applySchema_def Let_def)

lemma normalizeItems_names:
  "normalizeItems nz xs = Inr items \<Longrightarrow> r \<in> set items \<Longrightarrow> \<exists>n. get_prop r ''name'' = JStr n"
proof (induction xs arbitrary: items)
  case Nil
  then show ?case by simp
next
  case (Cons x xs)
  show ?case
  proof (cases "truthy (nz x)")
    case False
    with Cons show ?thesis by simp
  next
    case True
    with Cons.prems(1) obtain kvs s rest where "nz x = JObj kvs" "get_prop kvs ''name'' = JStr s"
      "normalizeItems nz xs = Inr rest" "items = kvs # rest"
      by (auto simp: Let_def split: jsval.splits sum.splits)
    with Cons.IH[of rest] Cons.prems(2) show ?thesis by auto
  qed
qed

section \<open>Deleting a real item\<close>










section \<open>The index tables and the conversion of before\<close>


lemma scan_indices_sound:
  assumes "scan_indices items i lo hi = (lo', hi')"
  shows "(lo' k = Some j \<longrightarrow> lo k = Some j \<or> (i \<le> j \<and> j < i + length items \<and> key_at items (j - i) = k)) \<and>
         (hi' k = Some j \<longrightarrow> hi k = Some j \<or> (i \<le> j \<and> j < i + length items \<and> key_at items (j - i) = k))"
  using assms
proof (induction items arbitrary: i lo hi)
  case Nil
  then show ?case by simp
next
  case (Cons a items)
  let ?name = "to_key (get_prop a ''name'')"
  let ?lo = "if lo ?name = None \<and> \<not> inherited ?name then lo(?name \<mapsto> i) else lo"
  let ?hi = "case hi ?name of None \<Rightarrow> if inherited ?name then hi else hi(?name \<mapsto> i)
             | Some h \<Rightarrow> if i > h then hi(?name \<mapsto> i) else hi"
  from Cons.prems have "scan_indices items (Suc i) ?lo ?hi = (lo', hi')"
    by (simp add: Let_def)
  from Cons.IH[OF this]
  have 1: "lo' k = Some j \<longrightarrow> ?lo k = Some j \<or> (Suc i \<le> j \<and> j < Suc i + length items \<and> key_at items (j - Suc i) = k)"
    and 2: "hi' k = Some j \<longrightarrow> ?hi k = Some j \<or> (Suc i \<le> j \<and> j < Suc i + length items \<and> key_at items (j - Suc i) = k)"
    by blast+
  have s: "Suc i \<le> j \<Longrightarrow> key_at items (j - Suc i) = key_at (a # items) (j - i)"
    by (simp add: key_at_def Suc_diff_le)
  have l: "?lo k = Some j \<Longrightarrow> lo k = Some j \<or> (j = i \<and> key_at (a # items) 0 = k)"
    by (auto simp: key_at_def split: if_splits)
  have h: "?hi k = Some j \<Longrightarrow> hi k = Some j \<or> (j = i \<and> key_at (a # items) 0 = k)"
    by (auto simp: key_at_def split: if_splits option.splits)
  show ?case
  proof (intro conjI impI)
    assume "lo' k = Some j"
    with 1 l s show "lo k = Some j \<or> (i \<le> j \<and> j < i + length (a # items) \<and> key_at (a # items) (j - i) = k)"
      by fastforce
  next
    assume "hi' k = Some j"
    with 2 h s show "hi k = Some j \<or> (i \<le> j \<and> j < i + length (a # items) \<and> key_at (a # items) (j - i) = k)"
      by fastforce
  qed
qed








lemma length_push_all [simp]: "length (push_all ps after) = length after"
  unfolding push_all_def by (induction ps arbitrary: after) auto


lemma length_after_rows [simp]: "length (after_rows items) = length items"
  by (simp add: after_rows_def)








lemma high_sound:
  "snd (scan_indices L 0 Map.empty Map.empty) k = Some j \<Longrightarrow> j < length L \<and> key_at L j = k"
proof -
  assume a: "snd (scan_indices L 0 Map.empty Map.empty) k = Some j"
  obtain lo hi where s: "scan_indices L 0 Map.empty Map.empty = (lo, hi)"
    by (cases "scan_indices L 0 Map.empty Map.empty")
  with a scan_indices_sound[OF s, of k j] show ?thesis by auto
qed










lemma length_pushed [simp]: "length (pushed items after) = min (length items) (length after)"
  by (simp add: pushed_def)




section \<open>Constraint orders without circular references\<close>
















section \<open>What the sort stage relies on\<close>

lemma init_dom_aux:
  "(\<forall>r. init_own f A H i os = Some r \<longrightarrow> i \<in> dom (fst r) \<and> dom os \<subseteq> dom (fst r))"
  "(\<forall>r. init_each_own f A H i ts os mx = Some r \<longrightarrow> dom os \<subseteq> dom (fst r))"
proof (induction f A H i os and f A H i ts os mx rule: init_own_init_each_own.induct)
  case (1 after highIndices idx orders)
  then show ?case by simp
next
  case (2 fuel after highIndices idx orders)
  show ?case
  proof (intro allI impI)
    fix r assume a: "init_own (Suc fuel) after highIndices idx orders = Some r"
    show "idx \<in> dom (fst r) \<and> dom orders \<subseteq> dom (fst r)"
    proof (cases "truthy_num (orders idx)")
      case True
      with a show ?thesis by (auto simp: truthy_num_def split: option.splits)
    next
      case nt: False
      show ?thesis
      proof (cases "after ! idx = []")
        case True
        with a nt show ?thesis by auto
      next
        case ne: False
        from a nt ne obtain o' m where
          e: "init_each_own fuel after highIndices idx (after ! idx)
                (orders(idx \<mapsto> int idx * CONSTRAINT_SCALE)) None = Some (o', m)"
          by (auto simp: Let_def split: option.splits)
        from "2.IH"[OF nt refl ne, rule_format, OF e]
        have d: "dom (orders(idx \<mapsto> int idx * CONSTRAINT_SCALE)) \<subseteq> dom o'" by simp
        from a e nt ne have "fst r = o'(idx \<mapsto> snd r)" by (auto simp: Let_def)
        with d show ?thesis by auto

      qed
    qed
  qed
next
  case (3 fuel after highIndices idx orders mx)
  then show ?case by simp
next
  case (4 fuel after highIndices idx target targets orders mx)
  show ?case
  proof (intro allI impI)
    fix r assume a: "init_each_own fuel after highIndices idx (target # targets) orders mx = Some r"
    show "dom orders \<subseteq> dom (fst r)"
    proof (cases "highIndices (to_key target)")
      case None
      with a "4.IH"(1)[OF None] show ?thesis by simp
    next
      case (Some h)
      from a Some obtain o' v where
        e: "init_own fuel after highIndices h orders = Some (o', v)"
        by (auto split: option.splits)
      from "4.IH"(2)[OF Some, rule_format, OF e] have d1: "dom orders \<subseteq> dom o'" by simp
      show ?thesis
      proof (cases "\<not> truthy_num mx \<or> v > num_of mx")
        case True
        with a Some e have "init_each_own fuel after highIndices idx targets (o'(idx \<mapsto> v + 1)) (Some v) = Some r"
          by simp
        from "4.IH"(3)[OF Some e refl True, rule_format, OF this]
        have "dom (o'(idx \<mapsto> v + 1)) \<subseteq> dom (fst r)" .
        with d1 show ?thesis by auto
      next
        case False
        with a Some e have "init_each_own fuel after highIndices idx targets o' mx = Some r"
          by simp
        from "4.IH"(4)[OF Some e refl False, rule_format, OF this]
        have "dom o' \<subseteq> dom (fst r)" .
        with d1 show ?thesis by blast
      qed
    qed
  qed
qed

lemma init_all_dom:
  "init_all_own f A H is os = Some orders \<Longrightarrow> set is \<subseteq> dom orders \<and> dom os \<subseteq> dom orders"
proof (induction "is" arbitrary: os)
  case Nil
  then show ?case by simp
next
  case (Cons i "is")
  from Cons.prems obtain o' v where e: "init_own f A H i os = Some (o', v)"
    and r: "init_all_own f A H is o' = Some orders"
    by (auto split: option.splits)
  from init_dom_aux(1)[of f A H i os, rule_format, OF e]
  have "i \<in> dom o'" "dom os \<subseteq> dom o'" by simp_all
  moreover from Cons.IH[OF r] have "set is \<subseteq> dom orders" "dom o' \<subseteq> dom orders" by simp_all
  ultimately show ?case by (simp add: subset_iff)
qed

lemma getConstraintOrders_dom:
  "getConstraintOrders f items = Some (Inr orders) \<Longrightarrow> i < length items \<Longrightarrow> orders i \<noteq> None"
proof -
  assume a: "getConstraintOrders f items = Some (Inr orders)" and i: "i < length items"
  from a obtain A where "init_all f A (snd (scan_indices items 0 Map.empty Map.empty))
      [0..<length items] Map.empty = Some (Inr orders)"
    unfolding getConstraintOrders_def by (cases "after_table items") simp_all
  from init_all_dom[OF init_all_returns_own[OF this]] i show ?thesis by auto
qed

lemma isArray_new_value:
  "isArray d \<or> isArray s \<Longrightarrow> s \<noteq> JUndefined \<Longrightarrow> isArray (new_value d s)"
  by (cases d; cases s) (simp_all add: new_value_def getType_def)

lemma isArray_merge_into_des:
  "isArray (get_prop des k) \<Longrightarrow> isArray (get_prop (merge_into des src) k)"
proof (induction src arbitrary: des)
  case Nil
  then show ?case by simp
next
  case (Cons a src)
  obtain p v where a: "a = (p, v)" by (cases a)
  have "isArray (get_prop (store p (new_value (get_prop des p) v) des) k)"
  proof (cases "p = k \<and> v \<noteq> JUndefined")
    case True
    with Cons.prems isArray_new_value[of "get_prop des k" v] show ?thesis
      by (auto simp: get_prop_store)
  next
    case False
    with Cons.prems show ?thesis by (auto simp: get_prop_store)
  qed
  from Cons.IH[OF this] show ?case unfolding a merge_into_Cons .
qed

lemma isArray_merge_into_src:
  "isArray (get_prop src k) \<Longrightarrow> isArray (get_prop (merge_into des src) k)"
proof (induction src arbitrary: des)
  case Nil
  then show ?case by simp
next
  case (Cons a src)
  obtain p v where a: "a = (p, v)" by (cases a)
  show ?case
  proof (cases "p = k")
    case True
    with Cons.prems a have v: "isArray v" by (simp add: get_prop_Cons)
    then have "v \<noteq> JUndefined" by auto
    with v isArray_new_value[of "get_prop des k" v]
    have "isArray (get_prop (store p (new_value (get_prop des p) v) des) k)"
      using True by (auto simp: get_prop_store)
    from isArray_merge_into_des[OF this] show ?thesis unfolding a merge_into_Cons .
  next
    case False
    with Cons.prems a have "isArray (get_prop src k)" by (simp add: get_prop_Cons)
    from Cons.IH[OF this] show ?thesis unfolding a merge_into_Cons .
  qed
qed

lemma isArray_merge_des: "isArray (get_prop des k) \<Longrightarrow> isArray (get_prop (merge des srcs) k)"
  by (induction srcs arbitrary: des) (auto simp: isArray_merge_into_des)

lemma applySchema_arrays:
  assumes "e \<in> set (applySchema sch items)" "k = ''after'' \<or> k = ''before''"
  shows "isArray (get_prop e k)"
proof -
  have "isArray (get_prop base_item k)"
    using assms(2) by (auto simp: base_item_def get_prop_def)
  then have "isArray (get_prop (merge base_item srcs) k)" for srcs
    by (rule isArray_merge_des)
  with assms(1) show ?thesis
    by (auto simp: applySchema_def Let_def simp del: merge.simps)
qed

lemma mergeVirtuals_step_arrays:
  assumes k: "k = ''after'' \<or> k = ''before''"
    and i: "isArray (get_prop item k)"
    and v: "\<forall>v \<in> ran (fst st). isArray (get_prop v k)"
    and o: "\<forall>e \<in> set (snd st). isArray (get_prop e k)"
    and r: "mergeVirtuals_step item st = Inr st'"
  shows "(\<forall>v \<in> ran (fst st'). isArray (get_prop v k)) \<and>
         (\<forall>e \<in> set (snd st'). isArray (get_prop e k))"
proof (cases "truthy (get_prop item ''virtual'')")
  case True
  let ?i = "omit item ''virtual''"
  let ?key = "to_key (get_prop item ''name'')"
  have oi: "isArray (get_prop ?i k)" using i k by (auto simp: get_prop_omit)
  let ?p = "case fst st ?key of Some v' \<Rightarrow> merge v' [JObj ?i] | None \<Rightarrow> ?i"
  have p: "isArray (get_prop ?p k)"
    using oi by (auto split: option.splits intro: isArray_merge_into_src)
  have st: "st' = ((fst st)(?key \<mapsto> ?p),
       map (\<lambda>e. if strict_eq (get_prop e ''name'') (get_prop item ''name'')
                 then merge e [JObj ?i] else e) (snd st))"
    using True r by (cases "fst st ?key") (auto simp: mergeVirtuals_step_def Let_def split: if_splits)
  have 1: "\<forall>v \<in> ran (fst st'). isArray (get_prop v k)"
  proof
    fix w assume "w \<in> ran (fst st')"
    then obtain q where "((fst st)(?key \<mapsto> ?p)) q = Some w" unfolding st by (auto simp: ran_def)
    then have "w = ?p \<or> w \<in> ran (fst st)" by (auto simp: ran_def split: if_splits)
    with p v show "isArray (get_prop w k)" by blast
  qed
  have 2: "\<forall>e \<in> set (snd st'). isArray (get_prop e k)"
    unfolding st using o by (auto intro: isArray_merge_into_des)
  from 1 2 show ?thesis by blast
next
  case False
  let ?key = "to_key (get_prop item ''name'')"
  let ?new = "case fst st ?key of
                Some v' \<Rightarrow> merge [] [JObj v', JObj item]
              | None \<Rightarrow> if inherited ?key then merge [] [JObj item] else item"
  have "isArray (get_prop ?new k)"
    using i by (auto split: option.splits intro: isArray_merge_into_src)
  moreover have "st' = (fst st, snd st @ [?new])"
    using False r by (cases "fst st ?key") (auto simp: mergeVirtuals_step_def Let_def)
  ultimately show ?thesis using v o by auto
qed

lemma mergeVirtuals_loop_arrays:
  assumes k: "k = ''after'' \<or> k = ''before''"
  shows "\<forall>item \<in> set items. isArray (get_prop item k) \<Longrightarrow>
    \<forall>v \<in> ran (fst st). isArray (get_prop v k) \<Longrightarrow> \<forall>e \<in> set (snd st). isArray (get_prop e k) \<Longrightarrow>
    mergeVirtuals_loop items st = Inr st' \<Longrightarrow>
    \<forall>e \<in> set (snd st'). isArray (get_prop e k)"
proof (induction items arbitrary: st)
  case Nil
  then show ?case by simp
next
  case (Cons a items)
  from Cons.prems(4) obtain st1 where s1: "mergeVirtuals_step a st = Inr st1"
    and l: "mergeVirtuals_loop items st1 = Inr st'"
    by (cases "mergeVirtuals_step a st") simp_all
  from Cons.prems(1) have "isArray (get_prop a k)" by simp
  from mergeVirtuals_step_arrays[OF k this Cons.prems(2,3) s1]
  have "\<forall>v \<in> ran (fst st1). isArray (get_prop v k)" "\<forall>e \<in> set (snd st1). isArray (get_prop e k)"
    by simp_all
  with Cons.IH[OF _ _ _ l] Cons.prems(1) show ?case by simp
qed

lemma mergeVirtuals_arrays:
  assumes "mergeVirtuals (applySchema sch items) = Inr out" "e \<in> set out"
    "k = ''after'' \<or> k = ''before''"
  shows "isArray (get_prop e k)"
proof -
  have a: "\<forall>item \<in> set (applySchema sch items). isArray (get_prop item k)"
    using applySchema_arrays[OF _ assms(3)] by blast
  from assms(1) obtain st' where l: "mergeVirtuals_loop (applySchema sch items) (Map.empty, []) = Inr st'"
    and o: "out = snd st'"
    unfolding mergeVirtuals_def
    by (cases "mergeVirtuals_loop (applySchema sch items) (Map.empty, [])") auto
  from mergeVirtuals_loop_arrays[OF assms(3) a _ _ l] assms(2) o
  show ?thesis by simp
qed


section \<open>What run keeps of the caller's store\<close>





lemma htype_undef [simp]: "htype h HUndefined = OTHER"
  by (simp add: htype_def)





lemma extends_length: "extends n0 h h' \<Longrightarrow> length h \<le> length h'"
  by (simp add: extends_def)








text \<open>Assignment to a property of an object allocated by \<^verbatim>\<open>run\<close>.\<close>

lemma length_hset [simp]: "length (hset h a k v) = length h"
  by (simp add: hset_def)
















































section \<open>Group zero\<close>

lemma group_zero_run1:
  "run default_config 1 group_zero_input =
     Some (Inr [JObj [(''after'', JArr []), (''before'', JArr []), (''name'', JStr ''a'')],
                JObj [(''after'', JArr []), (''before'', JArr []), (''name'', JStr ''b''),
                      (''group'', JNum 0)]])"
  by code_simp

text \<open>
  C1. The claim says that an explicit numeric group, including 0, is compared by its own
  value. With the default group 500, the item \<^verbatim>\<open>b\<close> of group 0 would then come before the
  item \<^verbatim>\<open>a\<close> that has no group. The comparator reads \<^verbatim>\<open>a[0].group || this._defaultGroup\<close>,
  so group 0 is replaced by 500 as well and \<^verbatim>\<open>run\<close> returns \<^verbatim>\<open>a\<close> before \<^verbatim>\<open>b\<close>, with any
  fuel.
\<close>

theorem C1_group_zero_takes_default:
  "run default_config (Suc fuel) group_zero_input =
     Some (Inr [JObj [(''after'', JArr []), (''before'', JArr []), (''name'', JStr ''a'')],
                JObj [(''after'', JArr []), (''before'', JArr []), (''name'', JStr ''b''),
                      (''group'', JNum 0)]])"
  by (rule run_mono[OF group_zero_run1]) simp

section \<open>An item at index 0 that refers to itself\<close>

lemma init_self_diverges:
  "H ''a'' = Some 0 \<Longrightarrow> \<not> truthy_num (os 0) \<Longrightarrow> init_own fuel [[JStr ''a'']] H 0 os = None"
proof (induction fuel arbitrary: os)
  case 0
  then show ?case by simp
next
  case (Suc fuel)
  have "\<not> truthy_num ((os(0 \<mapsto> int 0 * CONSTRAINT_SCALE)) 0)"
    by (simp add: truthy_num_def)
  with Suc.IH[of "os(0 \<mapsto> int 0 * CONSTRAINT_SCALE)"] Suc.prems(1)
  have "init_own fuel [[JStr ''a'']] H 0 (os(0 \<mapsto> int 0 * CONSTRAINT_SCALE)) = None"
    by blast
  then show ?case using Suc.prems
    by (simp add: Let_def)
qed

lemma not_inherited_a: "\<not> inherited ''a''"
  by (simp add: inherited_def object_prototype_names_def)

lemma orders_self_diverge:
  assumes "after_table items = Inr [[JStr ''a'']]"
    and "snd (scan_indices items 0 Map.empty Map.empty) ''a'' = Some 0"
    and "length items = 1"
  shows "getConstraintOrders fuel items = None"
proof -
  let ?H = "snd (scan_indices items 0 Map.empty Map.empty)"
  have rng: "\<forall>k h. ?H k = Some h \<longrightarrow> h < length [[JStr ''a'']]"
    using high_sound[of items] assms(3) by auto
  have rows: "\<forall>i < length [[JStr ''a'']]. \<forall>t \<in> set ([[JStr ''a'']] ! i). \<not> inherited (to_key t)"
    by (simp add: not_inherited_a)
  have "init_all fuel [[JStr ''a'']] ?H [0] Map.empty =
      map_option Inr (init_all_own fuel [[JStr ''a'']] ?H [0] Map.empty)"
    using rows rng by (rule init_all_own_agrees) simp
  moreover have "init_own fuel [[JStr ''a'']] ?H 0 Map.empty = None"
    using assms(2) by (rule init_self_diverges) (simp add: truthy_num_def)
  ultimately show ?thesis
    unfolding getConstraintOrders_def assms(1) assms(3) by simp
qed

lemma self_after_stage:
  "mergeVirtuals (applySchema [] [[(''name'', JStr ''a''), (''after'', JArr [JStr ''a''])]]) =
    Inr [[(''after'', JArr [JStr ''a'']), (''before'', JArr []), (''name'', JStr ''a'')]]"
  by code_simp

lemma self_after_table:
  "after_table [[(''after'', JArr [JStr ''a'']), (''before'', JArr []), (''name'', JStr ''a'')]] =
     Inr [[JStr ''a'']]"
  by code_simp

lemma self_after_high:
  "snd (scan_indices
          [[(''after'', JArr [JStr ''a'']), (''before'', JArr []), (''name'', JStr ''a'')]]
          0 Map.empty Map.empty) ''a'' = Some 0"
  by code_simp

lemma self_after_normalize:
  "normalizeItems (\<lambda>item. item) (elems self_after_input) =
     Inr [[(''name'', JStr ''a''), (''after'', JArr [JStr ''a''])]]"
  by code_simp

lemma self_before_stage:
  "mergeVirtuals (applySchema [] [[(''name'', JStr ''a''), (''before'', JArr [JStr ''a''])]]) =
    Inr [[(''after'', JArr []), (''before'', JArr [JStr ''a'']), (''name'', JStr ''a'')]]"
  by code_simp

lemma self_before_table:
  "after_table [[(''after'', JArr []), (''before'', JArr [JStr ''a'']), (''name'', JStr ''a'')]] =
     Inr [[JStr ''a'']]"
  by code_simp

lemma self_before_high:
  "snd (scan_indices
          [[(''after'', JArr []), (''before'', JArr [JStr ''a'']), (''name'', JStr ''a'')]]
          0 Map.empty Map.empty) ''a'' = Some 0"
  by code_simp

lemma self_before_normalize:
  "normalizeItems (\<lambda>item. item) (elems self_before_input) =
     Inr [[(''name'', JStr ''a''), (''before'', JArr [JStr ''a''])]]"
  by code_simp

lemma excludeDisabled_self_after:
  "excludeDisabled [[(''after'', JArr [JStr ''a'']), (''before'', JArr []), (''name'', JStr ''a'')]] =
     [[(''after'', JArr [JStr ''a'']), (''before'', JArr []), (''name'', JStr ''a'')]]"
  by code_simp

lemma excludeDisabled_self_before:
  "excludeDisabled [[(''after'', JArr []), (''before'', JArr [JStr ''a'']), (''name'', JStr ''a'')]] =
     [[(''after'', JArr []), (''before'', JArr [JStr ''a'']), (''name'', JStr ''a'')]]"
  by code_simp

text \<open>
  C3. The claim says that \<^verbatim>\<open>run\<close> terminates on every input, self-references included.
  For the single item \<^verbatim>\<open>{name: "a", after: ["a"]}\<close> the provisional memo value is
  \<^verbatim>\<open>0 * CONSTRAINT_SCALE = 0\<close>, which the test \<^verbatim>\<open>if (orders[idx])\<close> takes for "not yet
  computed": \<^verbatim>\<open>_init(0)\<close> calls itself again and again, and no amount of fuel lets
  \<^verbatim>\<open>run\<close> return.
\<close>

theorem C3_self_reference_never_returns:
  "run default_config fuel self_after_input = None"
proof -
  have n: "normalizeItems (normalize default_config) (elems self_after_input) =
      Inr [[(''name'', JStr ''a''), (''after'', JArr [JStr ''a''])]]"
    by (simp add: default_config_def self_after_normalize)
  have a: "isArray self_after_input"
    by (simp add: self_after_input_def)
  have s: "schema default_config = []"
    by (simp add: default_config_def)
  show ?thesis
    unfolding run_def
    using orders_self_diverge[OF self_after_table self_after_high, of fuel]
    by (simp add: n a s self_after_stage excludeDisabled_self_after sortItems_def)
qed

text \<open>
  C6. The claim says that \<^verbatim>\<open>run\<close> throws only when its argument is not an array or a
  normalized item is not a plain object with a string name. The argument
  \<^verbatim>\<open>[{name: "a", before: ["a"]}]\<close> is an array, the default \<^verbatim>\<open>normalize\<close> accepts its
  item, and yet \<^verbatim>\<open>run\<close> neither returns a result nor stops with one of its two errors,
  whatever the fuel: the converted \<^verbatim>\<open>before\<close> makes the item at index 0 refer to itself.
\<close>

theorem C6_accepted_input_without_result:
  "isArray self_before_input \<and>
   normalizeItems (normalize default_config) (elems self_before_input) =
     Inr [[(''name'', JStr ''a''), (''before'', JArr [JStr ''a''])]] \<and>
   run default_config fuel self_before_input = None"
proof -
  have n: "normalizeItems (normalize default_config) (elems self_before_input) =
      Inr [[(''name'', JStr ''a''), (''before'', JArr [JStr ''a''])]]"
    by (simp add: default_config_def self_before_normalize)
  have a: "isArray self_before_input"
    by (simp add: self_before_input_def)
  have s: "schema default_config = []"
    by (simp add: default_config_def)
  have "run default_config fuel self_before_input = None"
    unfolding run_def
    using orders_self_diverge[OF self_before_table self_before_high, of fuel]
    by (simp add: n a s self_before_stage excludeDisabled_self_before sortItems_def)
  with n a show ?thesis
    by simp
qed

section \<open>Names that Object.prototype has\<close>

text \<open>
  C10. The claim describes how \<^verbatim>\<open>_mergeVirtuals\<close> resolves a conflict between a virtual
  item and a real item of the same name: when the virtual item comes first, the real item
  is emitted as the fresh merge \<^verbatim>\<open>merge({}, v, item)\<close> and its value wins; when the
  virtual item comes second, the patch is merged on top of the emitted real item and the
  value of the patch wins. For two items named \<^verbatim>\<open>x\<close> that hold \<open>1\<close> and \<open>2\<close> under
  \<^verbatim>\<open>a\<close> the stage does so. For two such items named \<^verbatim>\<open>valueOf\<close> it emits nothing in
  either order: \<^verbatim>\<open>virtual[name]\<close> finds \<^verbatim>\<open>Object.prototype.valueOf\<close>, the patch is merged
  into that function, and the assignment of its \<^verbatim>\<open>name\<close> throws a \<open>TypeError\<close>.
\<close>

theorem C10_inherited_name_throws:
  "mergeVirtuals [conflict_virtual ''x'', conflict_real ''x''] =
     Inr [[(''after'', JArr []), (''before'', JArr []), (''name'', JStr ''x''), (''a'', JNum 1)]] \<and>
   mergeVirtuals [conflict_real ''x'', conflict_virtual ''x''] =
     Inr [[(''after'', JArr []), (''before'', JArr []), (''name'', JStr ''x''), (''a'', JNum 2)]] \<and>
   mergeVirtuals [conflict_virtual ''valueOf'', conflict_real ''valueOf''] = Inl TypeError \<and>
   mergeVirtuals [conflict_real ''valueOf'', conflict_virtual ''valueOf''] = Inl TypeError \<and>
   run default_config 1 (JArr [named ''valueOf'' [(''virtual'', JBool True), (''a'', JNum 2)],
                               named ''valueOf'' [(''a'', JNum 1)]]) = Some (Inl TypeError) \<and>
   run default_config 1 (JArr [named ''valueOf'' [(''a'', JNum 1)],
                               named ''valueOf'' [(''virtual'', JBool True), (''a'', JNum 2)]]) =
     Some (Inl TypeError)"
  by code_simp

lemma stable_input_normalize:
  "normalizeItems (normalize default_config) stable_input =
     Inr [[(''name'', JStr ''a'')], [(''name'', JStr ''valueOf''), (''virtual'', JBool True)],
          [(''name'', JStr ''c'')]]"
  by code_simp

lemma stable_input_merge:
  "mergeVirtuals (applySchema (schema default_config)
     [[(''name'', JStr ''a'')], [(''name'', JStr ''valueOf''), (''virtual'', JBool True)],
      [(''name'', JStr ''c'')]]) = Inl TypeError"
  by code_simp

lemma stable_input_facts:
  "stable_input =
     [named ''a'' [], named ''valueOf'' [(''virtual'', JBool True)], named ''c'' []] \<and>
   run default_config 1 (JArr [stable_input ! 0, stable_input ! 2]) =
     Some (Inr [JObj [(''after'', JArr []), (''before'', JArr []), (''name'', JStr ''a'')],
                JObj [(''after'', JArr []), (''before'', JArr []), (''name'', JStr ''c'')]])"
  by code_simp

text \<open>
  C4. The claim says that \<^verbatim>\<open>run\<close> returns the surviving items in their input order when
  no item has a group or a constraint. None of the three items of \<open>stable_input\<close> has
  one; the survivors are \<^verbatim>\<open>a\<close> and \<^verbatim>\<open>c\<close>, the second item being virtual. Without
  the second item \<^verbatim>\<open>run\<close> returns \<^verbatim>\<open>a\<close>, \<^verbatim>\<open>c\<close>; with it, \<^verbatim>\<open>run\<close> returns nothing: the
  virtual item is named \<^verbatim>\<open>valueOf\<close>, and \<^verbatim>\<open>_mergeVirtuals\<close> throws a \<open>TypeError\<close> as in
  C10, whatever the fuel.
\<close>

theorem C4_inherited_virtual_name_throws:
  "stable_input =
     [named ''a'' [], named ''valueOf'' [(''virtual'', JBool True)], named ''c'' []] \<and>
   run default_config 1 (JArr [stable_input ! 0, stable_input ! 2]) =
     Some (Inr [JObj [(''after'', JArr []), (''before'', JArr []), (''name'', JStr ''a'')],
                JObj [(''after'', JArr []), (''before'', JArr []), (''name'', JStr ''c'')]]) \<and>
   run default_config fuel (JArr stable_input) = Some (Inl TypeError)"
proof -
  have "run default_config fuel (JArr stable_input) = Some (Inl TypeError)"
    unfolding run_def by (simp add: stable_input_normalize stable_input_merge)
  with stable_input_facts show ?thesis by simp
qed

section \<open>Virtual items\<close>

lemma finalizeItems_default: "finalizeItems (finalize default_config) items = map JObj items"
  by (simp add: finalizeItems_def default_config_def)

text \<open>
  C5. For the real item \<^verbatim>\<open>{name: "x", a: 1}\<close> and the virtual item
  \<^verbatim>\<open>{name: "x", virtual: true, b: 2}\<close>, \<^verbatim>\<open>run\<close> with the default options returns exactly one
  item, named \<^verbatim>\<open>x\<close> and carrying \<^verbatim>\<open>a: 1\<close> and \<^verbatim>\<open>b: 2\<close>, in whichever order the two are
  given; the two results hold the same value under every property (the properties
  \<^verbatim>\<open>a\<close> and \<^verbatim>\<open>b\<close> were inserted in a different order). Moreover, for every input that
  \<^verbatim>\<open>normalize\<close> accepts and every schema that does not redefine names: whenever \<^verbatim>\<open>run\<close>
  returns an output, the output is what \<^verbatim>\<open>finalize\<close> makes of items each of which bears
  the name of a real (non-virtual) input item. A name with virtual occurrences only never
  appears.
\<close>

theorem C5_virtual_merge:
  assumes n: "normalizeItems (normalize cfg) xs = Inr items1"
    and d: "\<forall>r \<in> set items1. distinct (map fst r)"
    and sch: "\<forall>k. ''name'' \<notin> fst ` set (entries (get_prop (schema cfg) k))"
    and r: "run cfg fuel (JArr xs) = Some (Inr out)"
  shows "run default_config (Suc f) (JArr [real_x, virtual_x]) =
           Some (Inr [JObj [(''after'', JArr []), (''before'', JArr []), (''name'', JStr ''x''),
                            (''a'', JNum 1), (''b'', JNum 2)]]) \<and>
         run default_config (Suc f) (JArr [virtual_x, real_x]) =
           Some (Inr [JObj [(''after'', JArr []), (''before'', JArr []), (''name'', JStr ''x''),
                            (''b'', JNum 2), (''a'', JNum 1)]]) \<and>
         (\<forall>k. get_prop [(''after'', JArr []), (''before'', JArr []), (''name'', JStr ''x''),
                          (''a'', JNum 1), (''b'', JNum 2)] k =
               get_prop [(''after'', JArr []), (''before'', JArr []), (''name'', JStr ''x''),
                          (''b'', JNum 2), (''a'', JNum 1)] k) \<and>
         (\<exists>items5. out = finalizeItems (finalize cfg) items5 \<and>
            (\<forall>e \<in> set items5. \<exists>r \<in> set items1. \<not> truthy (get_prop r ''virtual'') \<and>
                get_prop r ''name'' = get_prop e ''name''))"
proof -
  let ?items2 = "applySchema (schema cfg) items1"
  have 2: "distinct (map fst r2) \<and> (\<exists>m. get_prop r2 ''name'' = JStr m)" if "r2 \<in> set ?items2" for r2
  proof -
    from applySchema_set[OF that] obtain r where r: "r \<in> set items1" "r2 \<in> set (applySchema (schema cfg) [r])"
      by blast
    from normalizeItems_names[OF n r(1)] obtain m where "get_prop r ''name'' = JStr m" by blast
    from applySchema_item[OF _ this _ r(2)] d r(1) sch show ?thesis by blast
  qed
  from r n obtain items3 where m: "mergeVirtuals ?items2 = Inr items3"
    unfolding run_def by (cases "mergeVirtuals ?items2") simp_all
  from r n m obtain items5 where
    s: "sortItems (defaultGroup cfg) fuel (excludeDisabled items3) = Some (Inr items5)"
    and o: "out = finalizeItems (finalize cfg) items5"
    unfolding run_def
    by (cases "sortItems (defaultGroup cfg) fuel (excludeDisabled items3)")
       (auto split: sum.splits)
  have g: "\<exists>r \<in> set items1. \<not> truthy (get_prop r ''virtual'') \<and>
              get_prop r ''name'' = get_prop e ''name''" if e: "e \<in> set items5" for e
  proof -
    from sortItems_props[OF s e] obtain e4 where
      e4: "e4 \<in> set (excludeDisabled items3)" "get_prop e ''name'' = get_prop e4 ''name''"
      by auto
    then have "e4 \<in> set items3" using excludeDisabled_subset by blast
    from mergeVirtuals_names[OF _ m this] 2 obtain r2 where
      r2: "r2 \<in> set ?items2" "\<not> truthy (get_prop r2 ''virtual'')" "get_prop r2 ''name'' = get_prop e4 ''name''"
      by blast
    from applySchema_set[OF r2(1)] obtain r where r: "r \<in> set items1" "r2 \<in> set (applySchema (schema cfg) [r])"
      by blast
    from normalizeItems_names[OF n r(1)] obtain m where m: "get_prop r ''name'' = JStr m" by blast
    from applySchema_item[OF _ m _ r(2)] d r(1) sch r2(2)
    have "get_prop r2 ''name'' = JStr m" "\<not> truthy (get_prop r ''virtual'')" by blast+
    with r(1) m r2(3) e4(2) show ?thesis by auto
  qed
  have a: "run default_config (Suc f) (JArr [real_x, virtual_x]) =
           Some (Inr [JObj [(''after'', JArr []), (''before'', JArr []), (''name'', JStr ''x''),
                            (''a'', JNum 1), (''b'', JNum 2)]])"
    by (rule run_mono[OF run_real_virtual]) simp
  have b: "run default_config (Suc f) (JArr [virtual_x, real_x]) =
           Some (Inr [JObj [(''after'', JArr []), (''before'', JArr []), (''name'', JStr ''x''),
                            (''b'', JNum 2), (''a'', JNum 1)]])"
    by (rule run_mono[OF run_virtual_real]) simp
  from o g have "\<exists>items5. out = finalizeItems (finalize cfg) items5 \<and>
            (\<forall>e \<in> set items5. \<exists>r \<in> set items1. \<not> truthy (get_prop r ''virtual'') \<and>
                get_prop r ''name'' = get_prop e ''name'')"
    by blast
  with a b same_record show ?thesis by (intro conjI allI)
qed

theorem C5_virtual_merge_witness:
  "run default_config 1 (JArr virtual_only_input) =
     Some (Inr [JObj [(''after'', JArr []), (''before'', JArr []), (''name'', JStr ''x''),
                      (''a'', JNum 1)]]) \<and>
   (\<exists>r \<in> set [[(''name'', JStr ''y''), (''virtual'', JBool True)],
                [(''name'', JStr ''x''), (''a'', JNum 1)]].
      \<not> truthy (get_prop r ''virtual'') \<and> get_prop r ''name'' = JStr ''x'')"
proof -
  let ?items1 = "[[(''name'', JStr ''y''), (''virtual'', JBool True)],
                  [(''name'', JStr ''x''), (''a'', JNum 1)]]"
  let ?e = "[(''after'', JArr []), (''before'', JArr []), (''name'', JStr ''x''), (''a'', JNum 1)]"
  have n: "normalizeItems (normalize default_config) virtual_only_input = Inr ?items1"
    by code_simp
  have d: "\<forall>r \<in> set ?items1. distinct (map fst r)"
    by simp
  have sch: "\<forall>k. ''name'' \<notin> fst ` set (entries (get_prop (schema default_config) k))"
    by (simp add: default_config_def)
  have r: "run default_config 1 (JArr virtual_only_input) = Some (Inr [JObj ?e])"
    by code_simp
  have g: "get_prop ?e ''name'' = JStr ''x''"
    by (simp add: get_prop_def)
  from C5_virtual_merge[OF n d sch r, of 0] obtain items5 where
    o: "[JObj ?e] = finalizeItems (finalize default_config) items5"
    and v: "\<forall>e \<in> set items5. \<exists>r \<in> set ?items1. \<not> truthy (get_prop r ''virtual'') \<and>
                get_prop r ''name'' = get_prop e ''name''"
    by blast
  from o have "items5 = [?e]"
    unfolding finalizeItems_default by (cases items5) auto
  with v g have "\<exists>r \<in> set ?items1. \<not> truthy (get_prop r ''virtual'') \<and> get_prop r ''name'' = JStr ''x''"
    by simp
  with r show ?thesis
    by blast
qed

section \<open>Disabled items\<close>




section \<open>Before and after\<close>




section \<open>Constraint orders\<close>








section \<open>Sharing with the caller\<close>




end
